theory Spec2Isabelle
  imports Complex_Main "HOL-Library.Monad_Syntax" "HOL-Library.Signed_Division"
begin

section \<open>Data model of the GMS matcher (gms\_matcher.h)\<close>

text \<open>
  \<^verbatim>\<open>cv::Size\<close> is a pair of C++ \<^verbatim>\<open>int\<close>s, \<^verbatim>\<open>cv::Point2f\<close> a pair of floats.
  Integers are modelled as unbounded \<open>int\<close> (grid sizes and cell counts are far from
  the 32-bit limits), floating-point numbers as exact reals: rounding is not modelled.
  \<open>None\<close> stands for a fault of the C++ program: an access outside a vector or a
  matrix (undefined behaviour) or an allocation of negative size.
\<close>

record Size =
  width :: int
  height :: int

type_synonym Point2f = "real \<times> real"

record GMS_Matcher =
  mvP1 :: "Point2f list"
  mvP2 :: "Point2f list"
  mvMatches :: "(int \<times> int) list"
  mNumberMatches :: nat
  mGridSizeLeft :: Size
  mGridSizeRight :: Size
  mGridNumberLeft :: int
  mGridNumberRight :: int
  mMotionStatistics :: "int list list"
  mNumberPointsInPerCellLeft :: "int list"
  mCellPairs :: "int list"
  mvMatchPairs :: "(int \<times> int) list"
  mvbInlierMask :: "bool list"
  mGridNeighborLeft :: "int list list"
  mGridNeighborRight :: "int list list"
  mAlpha :: real

text \<open>The 8 rotation patterns, each one a 3 x 3 block, as in the source.\<close>

definition kRotationPatterns :: "int list list" where
  "kRotationPatterns =
    [[1, 2, 3, 4, 5, 6, 7, 8, 9],
     [4, 1, 2, 7, 5, 3, 8, 9, 6],
     [7, 4, 1, 8, 5, 2, 9, 6, 3],
     [8, 7, 4, 9, 5, 1, 6, 3, 2],
     [9, 8, 7, 6, 5, 4, 3, 2, 1],
     [6, 9, 8, 3, 5, 7, 2, 1, 4],
     [3, 6, 9, 2, 5, 8, 1, 4, 7],
     [2, 3, 6, 1, 5, 9, 4, 7, 8]]"

text \<open>The 5 scale ratios.\<close>

definition kScaleRatios :: "real list" where
  "kScaleRatios = [1, 1 / 2, 1 / sqrt 2, sqrt 2, 2]"

text \<open>Checked element access: a C++ \<^verbatim>\<open>v[i]\<close> outside the vector is a fault.\<close>

definition elem_at :: "'a list \<Rightarrow> int \<Rightarrow> 'a option" where
  "elem_at xs i = (if 0 \<le> i \<and> i < int (length xs) then Some (xs ! nat i) else None)"

definition elem_set :: "'a list \<Rightarrow> int \<Rightarrow> 'a \<Rightarrow> 'a list option" where
  "elem_set xs i v = (if 0 \<le> i \<and> i < int (length xs) then Some (xs[nat i := v]) else None)"

text \<open>\<^verbatim>\<open>m.at<int>(r, c)\<close> on a matrix stored as a list of rows, and its increment.\<close>

definition mat_at :: "int list list \<Rightarrow> int \<Rightarrow> int \<Rightarrow> int option" where
  "mat_at m r c = do { row \<leftarrow> elem_at m r; elem_at row c }"

definition mat_inc :: "int list list \<Rightarrow> int \<Rightarrow> int \<Rightarrow> int list list option" where
  "mat_inc m r c = do {
     row \<leftarrow> elem_at m r;
     v \<leftarrow> elem_at row c;
     Some (m[nat r := row[nat c := v + 1]])
   }"

text \<open>
  \<^verbatim>\<open>cv::Mat::zeros(rows, cols, CV_32SC1)\<close> and \<^verbatim>\<open>std::vector::assign(n, v)\<close>;
  a negative size raises an exception in both.
\<close>

definition zeros :: "int \<Rightarrow> int \<Rightarrow> int list list option" where
  "zeros rows cols =
    (if rows < 0 \<or> cols < 0 then None else Some (replicate (nat rows) (replicate (nat cols) 0)))"

definition assign :: "int \<Rightarrow> 'a \<Rightarrow> 'a list option" where
  "assign n v = (if n < 0 then None else Some (replicate (nat n) v))"

text \<open>The C++ conversion \<^verbatim>\<open>int(d)\<close> of a double truncates towards zero.\<close>

definition trunc_int :: "real \<Rightarrow> int" where
  "trunc_int d = (if 0 \<le> d then \<lfloor>d\<rfloor> else \<lceil>d\<rceil>)"

text \<open>A \<^verbatim>\<open>for\<close> loop over the given indices whose body may fault.\<close>

fun for_loop :: "'i list \<Rightarrow> ('i \<Rightarrow> 's \<Rightarrow> 's option) \<Rightarrow> 's \<Rightarrow> 's option" where
  "for_loop [] body s = Some s"
| "for_loop (i # is) body s = do { s' \<leftarrow> body i s; for_loop is body s' }"

section \<open>Grid indexer\<close>

text \<open>
  \<^verbatim>\<open>GetGridIndexLeft\<close>: \<open>x\<close> and \<open>y\<close> start at 0 and are set by the branch of the
  grid type; the bound check follows.
\<close>

definition GetGridIndexLeft :: "GMS_Matcher \<Rightarrow> Point2f \<Rightarrow> int \<Rightarrow> int" where
  "GetGridIndexLeft s pt type =
    (let W = width (mGridSizeLeft s); H = height (mGridSizeLeft s);
         (x, y) = (0, 0);
         (x, y) = (if type = 1 then (\<lfloor>fst pt * of_int W\<rfloor>, \<lfloor>snd pt * of_int H\<rfloor>) else (x, y));
         (x, y) = (if type = 2 then (\<lfloor>fst pt * of_int W + 1 / 2\<rfloor>, \<lfloor>snd pt * of_int H\<rfloor>) else (x, y));
         (x, y) = (if type = 3 then (\<lfloor>fst pt * of_int W\<rfloor>, \<lfloor>snd pt * of_int H + 1 / 2\<rfloor>) else (x, y));
         (x, y) = (if type = 4 then (\<lfloor>fst pt * of_int W + 1 / 2\<rfloor>, \<lfloor>snd pt * of_int H + 1 / 2\<rfloor>)
                   else (x, y))
     in if x \<ge> W \<or> y \<ge> H then -1 else x + y * W)"

text \<open>\<^verbatim>\<open>GetGridIndexRight\<close> has no bound check.\<close>

definition GetGridIndexRight :: "GMS_Matcher \<Rightarrow> Point2f \<Rightarrow> int" where
  "GetGridIndexRight s pt =
    (let x = \<lfloor>fst pt * of_int (width (mGridSizeRight s))\<rfloor>;
         y = \<lfloor>snd pt * of_int (height (mGridSizeRight s))\<rfloor>
     in x + y * width (mGridSizeRight s))"

text \<open>
  \<^verbatim>\<open>GetNB9\<close>: the vector of 9 entries starts at -1; the double loop over
  \<open>yi\<close>, \<open>xi\<close> in -1..1 overwrites slot \<open>xi + 4 + yi * 3\<close> for the neighbours inside
  the grid. C++ \<^verbatim>\<open>%\<close> and \<^verbatim>\<open>/\<close> truncate towards zero (\<open>smod\<close>, \<open>sdiv\<close>).
  Both callers pass \<open>width * height\<close> rows, so no cell exists when the width is 0.
\<close>

definition nb_offsets :: "(int \<times> int) list" where
  "nb_offsets = concat (map (\<lambda>yi. map (\<lambda>xi. (yi, xi)) [-1, 0, 1]) [-1, 0, 1])"

definition GetNB9 :: "int \<Rightarrow> Size \<Rightarrow> int list" where
  "GetNB9 idx GridSize =
    (let idx_x = idx smod width GridSize;
         idx_y = idx sdiv width GridSize
     in fold (\<lambda>(yi, xi) NB9.
          let idx_xx = idx_x + xi; idx_yy = idx_y + yi
          in if idx_xx < 0 \<or> idx_xx \<ge> width GridSize \<or> idx_yy < 0 \<or> idx_yy \<ge> height GridSize
             then NB9
             else NB9[nat (xi + 4 + yi * 3) := idx_xx + idx_yy * width GridSize])
        nb_offsets (replicate 9 (-1)))"

text \<open>\<^verbatim>\<open>InitializeNeighbors\<close>: row \<open>i\<close> of the matrix is overwritten by \<open>GetNB9 i\<close>.\<close>

definition InitializeNeighbors :: "int list list \<Rightarrow> Size \<Rightarrow> int list list" where
  "InitializeNeighbors neighbor GridSize =
    map (\<lambda>i. GetNB9 (int i) GridSize) [0..<length neighbor]"

text \<open>Number of valid (not -1) slots of a neighbour row.\<close>

definition valid_slots :: "int list \<Rightarrow> nat" where
  "valid_slots NB9 = length (filter (\<lambda>v. v \<noteq> -1) NB9)"

text \<open>The cell at column \<open>xx\<close> and row \<open>yy\<close>, or -1 outside the grid; the neighbour
  at offset \<open>(xi, yi)\<close> of a cell.\<close>

definition grid_cell :: "Size \<Rightarrow> int \<Rightarrow> int \<Rightarrow> int" where
  "grid_cell GridSize xx yy =
    (if xx < 0 \<or> xx \<ge> width GridSize \<or> yy < 0 \<or> yy \<ge> height GridSize
     then -1 else xx + yy * width GridSize)"

definition neighbour_cell :: "int \<Rightarrow> Size \<Rightarrow> int \<Rightarrow> int \<Rightarrow> int" where
  "neighbour_cell idx GridSize yi xi =
    grid_cell GridSize (idx mod width GridSize + xi) (idx div width GridSize + yi)"

text \<open>Cells on the left or right border, and on the top or bottom border.\<close>

definition on_x_border :: "int \<Rightarrow> Size \<Rightarrow> bool" where
  "on_x_border idx gs = (idx mod width gs = 0 \<or> idx mod width gs = width gs - 1)"

definition on_y_border :: "int \<Rightarrow> Size \<Rightarrow> bool" where
  "on_y_border idx gs = (idx div width gs = 0 \<or> idx div width gs = height gs - 1)"

text \<open>4 valid slots for a corner cell, 6 for an edge cell that is no corner, 9 inside.\<close>

definition expected_valid :: "int \<Rightarrow> Size \<Rightarrow> nat" where
  "expected_valid idx gs =
    (if on_x_border idx gs \<and> on_y_border idx gs then 4
     else if on_x_border idx gs \<or> on_y_border idx gs then 6 else 9)"

section \<open>The GMS consistency filter (gms\_matcher.cpp)\<close>

text \<open>
  \<^verbatim>\<open>SetScale\<close>: the right grid is the left grid scaled by the ratio, truncated;
  its neighbour matrix is allocated and filled.
\<close>

definition SetScale :: "GMS_Matcher \<Rightarrow> int \<Rightarrow> GMS_Matcher option" where
  "SetScale s Scale = do {
     ratio \<leftarrow> elem_at kScaleRatios Scale;
     let gs = \<lparr>width = trunc_int (of_int (width (mGridSizeLeft s)) * ratio),
               height = trunc_int (of_int (height (mGridSizeLeft s)) * ratio)\<rparr>;
     let n = width gs * height gs;
     neighbor \<leftarrow> zeros n 9;
     Some (s\<lparr>mGridSizeRight := gs, mGridNumberRight := n,
             mGridNeighborRight := InitializeNeighbors neighbor gs\<rparr>)
   }"

text \<open>
  One iteration of the loop of \<^verbatim>\<open>AssignMatchPairs\<close>: the match's left cell is
  computed for the grid type, its right cell only for grid type 1 (the stored one is
  read otherwise); the vote is skipped when either index is negative.
\<close>

definition AssignMatchPair :: "int \<Rightarrow> nat \<Rightarrow> GMS_Matcher \<Rightarrow> GMS_Matcher option" where
  "AssignMatchPair GridType i s = do {
     m \<leftarrow> elem_at (mvMatches s) (int i);
     lp \<leftarrow> elem_at (mvP1 s) (fst m);
     rp \<leftarrow> elem_at (mvP2 s) (snd m);
     mp \<leftarrow> elem_at (mvMatchPairs s) (int i);
     let lgidx = GetGridIndexLeft s lp GridType;
     let rgidx = (if GridType = 1 then GetGridIndexRight s rp else snd mp);
     let s = s\<lparr>mvMatchPairs := (mvMatchPairs s)[i := (lgidx, rgidx)]\<rparr>;
     if lgidx < 0 \<or> rgidx < 0 then Some s
     else do {
       ms \<leftarrow> mat_inc (mMotionStatistics s) lgidx rgidx;
       n \<leftarrow> elem_at (mNumberPointsInPerCellLeft s) lgidx;
       Some (s\<lparr>mMotionStatistics := ms,
               mNumberPointsInPerCellLeft := (mNumberPointsInPerCellLeft s)[nat lgidx := n + 1]\<rparr>)
     }
   }"

definition AssignMatchPairs :: "GMS_Matcher \<Rightarrow> int \<Rightarrow> GMS_Matcher option" where
  "AssignMatchPairs s GridType = for_loop [0..<mNumberMatches s] (AssignMatchPair GridType) s"

text \<open>
  The inner loop of \<^verbatim>\<open>VerifyCellPairs\<close> over the right cells \<open>j\<close>: the loop state is
  the entry \<^verbatim>\<open>mCellPairs[i]\<close> and \<^verbatim>\<open>max_number\<close>.
\<close>

definition max_vote_step :: "int list \<Rightarrow> nat \<Rightarrow> int \<times> int \<Rightarrow> (int \<times> int) option" where
  "max_vote_step value j = (\<lambda>(cell_pair, max_number). do {
     v \<leftarrow> elem_at value (int j);
     Some (if v > max_number then (int j, v) else (cell_pair, max_number))
   })"

definition tentative_pairing :: "GMS_Matcher \<Rightarrow> int list \<Rightarrow> int \<Rightarrow> int option" where
  "tentative_pairing s value cell_pair =
     map_option fst (for_loop [0..<nat (mGridNumberRight s)] (max_vote_step value) (cell_pair, 0))"

text \<open>
  The loop over the 9 neighbour slots: the loop state is \<^verbatim>\<open>score\<close>, the sum
  \<^verbatim>\<open>thresh\<close> of the left populations and \<^verbatim>\<open>numpair\<close>.
\<close>

definition support_step ::
  "GMS_Matcher \<Rightarrow> int list \<Rightarrow> int list \<Rightarrow> int list \<Rightarrow> nat \<Rightarrow> int \<times> int \<times> nat \<Rightarrow> (int \<times> int \<times> nat) option"
where
  "support_step s CurrentRP NB9_lt NB9_rt j = (\<lambda>(score, thresh, numpair). do {
     ll \<leftarrow> elem_at NB9_lt (int j);
     p \<leftarrow> elem_at CurrentRP (int j);
     rr \<leftarrow> elem_at NB9_rt (p - 1);
     if ll = -1 \<or> rr = -1 then Some (score, thresh, numpair)
     else do {
       v \<leftarrow> mat_at (mMotionStatistics s) ll rr;
       n \<leftarrow> elem_at (mNumberPointsInPerCellLeft s) ll;
       Some (score + v, thresh + n, numpair + 1)
     }
   })"

definition neighbor_support ::
  "GMS_Matcher \<Rightarrow> int list \<Rightarrow> nat \<Rightarrow> int \<Rightarrow> (int \<times> int \<times> nat) option"
where
  "neighbor_support s CurrentRP i idx_grid_rt = do {
     NB9_lt \<leftarrow> elem_at (mGridNeighborLeft s) (int i);
     NB9_rt \<leftarrow> elem_at (mGridNeighborRight s) idx_grid_rt;
     for_loop [0..<9] (support_step s CurrentRP NB9_lt NB9_rt) (0, 0, 0)
   }"

text \<open>
  The test \<^verbatim>\<open>score < mAlpha * sqrt(thresh / numpair)\<close> in double arithmetic. The
  loop adds to \<^verbatim>\<open>thresh\<close> only where it counts a pair, so with \<open>numpair = 0\<close> the
  quotient is 0.0 / 0, which is NaN; the root of a negative quotient is NaN too, and a
  comparison with NaN is false. Both cases are written out, since HOL's \<open>x / 0\<close> is
  0 and its root of a negative number is negative.
\<close>

definition below_thresh :: "real \<Rightarrow> int \<Rightarrow> int \<Rightarrow> nat \<Rightarrow> bool" where
  "below_thresh alpha score thresh numpair =
     (if numpair = 0 \<or> thresh < 0 then False
      else of_int score < alpha * sqrt (of_int thresh / of_nat numpair))"

text \<open>The body of the loop of \<^verbatim>\<open>VerifyCellPairs\<close> for the left cell \<open>i\<close>.\<close>

definition VerifyCellPair :: "int list \<Rightarrow> nat \<Rightarrow> GMS_Matcher \<Rightarrow> GMS_Matcher option" where
  "VerifyCellPair CurrentRP i s = do {
     value \<leftarrow> elem_at (mMotionStatistics s) (int i);
     if sum_list value = 0 then do {
       cp \<leftarrow> elem_set (mCellPairs s) (int i) (-1);
       Some (s\<lparr>mCellPairs := cp\<rparr>)
     }
     else do {
       cell_pair \<leftarrow> elem_at (mCellPairs s) (int i);
       idx_grid_rt \<leftarrow> tentative_pairing s value cell_pair;
       let s = s\<lparr>mCellPairs := (mCellPairs s)[i := idx_grid_rt]\<rparr>;
       (score, thresh, numpair) \<leftarrow> neighbor_support s CurrentRP i idx_grid_rt;
       if below_thresh (mAlpha s) score thresh numpair
       then Some (s\<lparr>mCellPairs := (mCellPairs s)[i := -2]\<rparr>)
       else Some s
     }
   }"

definition VerifyCellPairs :: "GMS_Matcher \<Rightarrow> int \<Rightarrow> GMS_Matcher option" where
  "VerifyCellPairs s RotationType = do {
     CurrentRP \<leftarrow> elem_at kRotationPatterns (RotationType - 1);
     for_loop [0..<nat (mGridNumberLeft s)] (VerifyCellPair CurrentRP) s
   }"

text \<open>The marking loop at the end of each grid type in \<^verbatim>\<open>Run\<close>.\<close>

definition MarkInlier :: "nat \<Rightarrow> GMS_Matcher \<Rightarrow> GMS_Matcher option" where
  "MarkInlier i s = do {
     mp \<leftarrow> elem_at (mvMatchPairs s) (int i);
     if fst mp = -1 then Some s
     else do {
       cp \<leftarrow> elem_at (mCellPairs s) (fst mp);
       if cp = snd mp then do {
         mask \<leftarrow> elem_set (mvbInlierMask s) (int i) True;
         Some (s\<lparr>mvbInlierMask := mask\<rparr>)
       }
       else Some s
     }
   }"

text \<open>The body of the loop of \<^verbatim>\<open>Run\<close> over the 4 grid types.\<close>

definition GridPass :: "int \<Rightarrow> int \<Rightarrow> GMS_Matcher \<Rightarrow> GMS_Matcher option" where
  "GridPass RotationType GridType s = do {
     let s = s\<lparr>mMotionStatistics := map (map (\<lambda>_. 0)) (mMotionStatistics s)\<rparr>;
     cp \<leftarrow> assign (mGridNumberLeft s) (-1);
     np \<leftarrow> assign (mGridNumberLeft s) 0;
     let s = s\<lparr>mCellPairs := cp, mNumberPointsInPerCellLeft := np\<rparr>;
     s \<leftarrow> AssignMatchPairs s GridType;
     s \<leftarrow> VerifyCellPairs s RotationType;
     for_loop [0..<mNumberMatches s] MarkInlier s
   }"

text \<open>The state of \<^verbatim>\<open>Run\<close> before its loop, and \<^verbatim>\<open>Run\<close>.\<close>

definition RunInit :: "GMS_Matcher \<Rightarrow> GMS_Matcher option" where
  "RunInit s = do {
     ms \<leftarrow> zeros (mGridNumberLeft s) (mGridNumberRight s);
     Some (s\<lparr>mvbInlierMask := replicate (mNumberMatches s) False,
             mMotionStatistics := ms,
             mvMatchPairs := replicate (mNumberMatches s) (0, 0)\<rparr>)
   }"

definition Run :: "GMS_Matcher \<Rightarrow> int \<Rightarrow> (int \<times> GMS_Matcher) option" where
  "Run s RotationType = do {
     s \<leftarrow> RunInit s;
     s \<leftarrow> for_loop [1..4] (GridPass RotationType) s;
     Some (int (length (filter (\<lambda>b. b) (mvbInlierMask s))), s)
   }"

text \<open>
  \<^verbatim>\<open>GetInlierMask\<close>. The loops carry the matcher, the caller's vector
  \<^verbatim>\<open>vbInliers\<close> and \<^verbatim>\<open>max_inlier\<close>; the result is the returned count, the
  caller's vector and the matcher.
\<close>

definition keep_best ::
  "int \<times> GMS_Matcher \<Rightarrow> bool list \<Rightarrow> int \<Rightarrow> GMS_Matcher \<times> bool list \<times> int"
where
  "keep_best r vbInliers max_inlier =
     (let (num_inlier, s) = r
      in if num_inlier > max_inlier then (s, mvbInlierMask s, num_inlier)
         else (s, vbInliers, max_inlier))"

definition rotation_step ::
  "int \<Rightarrow> GMS_Matcher \<times> bool list \<times> int \<Rightarrow> (GMS_Matcher \<times> bool list \<times> int) option"
where
  "rotation_step RotationType = (\<lambda>(s, vbInliers, max_inlier). do {
     r \<leftarrow> Run s RotationType;
     Some (keep_best r vbInliers max_inlier)
   })"

definition scale_rotation_step ::
  "int \<Rightarrow> GMS_Matcher \<times> bool list \<times> int \<Rightarrow> (GMS_Matcher \<times> bool list \<times> int) option"
where
  "scale_rotation_step Scale = (\<lambda>(s, vbInliers, max_inlier). do {
     s \<leftarrow> SetScale s Scale;
     for_loop [1..8] rotation_step (s, vbInliers, max_inlier)
   })"

definition scale_step ::
  "int \<Rightarrow> GMS_Matcher \<times> bool list \<times> int \<Rightarrow> (GMS_Matcher \<times> bool list \<times> int) option"
where
  "scale_step Scale = (\<lambda>(s, vbInliers, max_inlier). do {
     s \<leftarrow> SetScale s Scale;
     r \<leftarrow> Run s 1;
     Some (keep_best r vbInliers max_inlier)
   })"

definition GetInlierMask ::
  "GMS_Matcher \<Rightarrow> bool list \<Rightarrow> bool \<Rightarrow> bool \<Rightarrow> (int \<times> bool list \<times> GMS_Matcher) option"
where
  "GetInlierMask s vbInliers WithScale WithRotation =
    (if \<not> WithScale \<and> \<not> WithRotation then do {
       s \<leftarrow> SetScale s 0;
       (max_inlier, s) \<leftarrow> Run s 1;
       Some (max_inlier, mvbInlierMask s, s)
     }
     else if WithRotation \<and> WithScale then do {
       (s, vbInliers, max_inlier) \<leftarrow> for_loop [0..4] scale_rotation_step (s, vbInliers, 0);
       Some (max_inlier, vbInliers, s)
     }
     else if WithRotation \<and> \<not> WithScale then do {
       s \<leftarrow> SetScale s 0;
       (s, vbInliers, max_inlier) \<leftarrow> for_loop [1..8] rotation_step (s, vbInliers, 0);
       Some (max_inlier, vbInliers, s)
     }
     else if \<not> WithRotation \<and> WithScale then do {
       (s, vbInliers, max_inlier) \<leftarrow> for_loop [0..4] scale_step (s, vbInliers, 0);
       Some (max_inlier, vbInliers, s)
     }
     else Some (0, vbInliers, s))"

text \<open>
  The constructor. \<^verbatim>\<open>cv::KeyPoint\<close> is read through its field \<^verbatim>\<open>pt\<close> only,
  \<^verbatim>\<open>cv::DMatch\<close> has the two indices and the distance. \<^verbatim>\<open>NormalizePoints\<close>
  divides by the image size; an image of width or height 0 would give infinite or NaN
  coordinates, which reals do not have: the model faults there. Members that the
  constructor leaves uninitialised are set to 0 or empty; \<^verbatim>\<open>GetInlierMask\<close> sets
  each of them before reading it.
\<close>

record KeyPoint =
  pt :: Point2f

record DMatch =
  queryIdx :: int
  trainIdx :: int
  distance :: real

definition NormalizePoints :: "KeyPoint list \<Rightarrow> Size \<Rightarrow> Point2f list option" where
  "NormalizePoints kp sz =
    (if kp \<noteq> [] \<and> (width sz = 0 \<or> height sz = 0) then None
     else Some (map (\<lambda>k. (fst (pt k) / of_int (width sz), snd (pt k) / of_int (height sz))) kp))"

definition ConvertMatches :: "DMatch list \<Rightarrow> (int \<times> int) list" where
  "ConvertMatches vDMatches = map (\<lambda>m. (queryIdx m, trainIdx m)) vDMatches"

definition GMS_Matcher_ctor ::
  "KeyPoint list \<Rightarrow> Size \<Rightarrow> KeyPoint list \<Rightarrow> Size \<Rightarrow> DMatch list \<Rightarrow> Size \<Rightarrow> real
   \<Rightarrow> GMS_Matcher option"
where
  "GMS_Matcher_ctor vkp1 size1 vkp2 size2 vDMatches grid_size alpha = do {
     P1 \<leftarrow> NormalizePoints vkp1 size1;
     P2 \<leftarrow> NormalizePoints vkp2 size2;
     neighbor \<leftarrow> zeros (width grid_size * height grid_size) 9;
     Some \<lparr>mvP1 = P1, mvP2 = P2, mvMatches = ConvertMatches vDMatches,
           mNumberMatches = length vDMatches,
           mGridSizeLeft = grid_size, mGridSizeRight = \<lparr>width = 0, height = 0\<rparr>,
           mGridNumberLeft = width grid_size * height grid_size, mGridNumberRight = 0,
           mMotionStatistics = [], mNumberPointsInPerCellLeft = [], mCellPairs = [],
           mvMatchPairs = [], mvbInlierMask = [],
           mGridNeighborLeft = InitializeNeighbors neighbor grid_size,
           mGridNeighborRight = [], mAlpha = alpha\<rparr>
   }"

section \<open>The match pruning dispatcher (match\_pruner.cpp)\<close>

text \<open>
  The members lose the trailing underscore of their C++ names, which Isabelle does not
  accept. The images are read through \<^verbatim>\<open>size()\<close> only and are modelled by their size.
  The LPM matcher is not part of the sources: its two calls (constructor and
  \<^verbatim>\<open>Match\<close>) are one function from the point lists, the three parameters and the
  optional prior labels to the cost and the labels, a parameter of the dispatcher.
\<close>

datatype PrunerType = PRUNER_RATIO | PRUNER_GMS | PRUNER_LPM

record MatchPruner =
  query_image :: Size
  refer_image :: Size
  query_kpts :: "KeyPoint list"
  refer_kpts :: "KeyPoint list"
  putative_matches :: "DMatch list list"
  pruner_method :: PrunerType
  pruned_matches :: "DMatch list"
  query_mpts :: "Point2f list"
  refer_mpts :: "Point2f list"
  knn_distances :: "real list list"
  scores :: "real list"

type_synonym LPM_Matcher =
  "Point2f list \<Rightarrow> Point2f list \<Rightarrow> int \<Rightarrow> real \<Rightarrow> real \<Rightarrow> bool list option \<Rightarrow> real list \<times> bool list"

text \<open>
  \<^verbatim>\<open>PruneMatchesByRatioTest\<close>: elements 0 and 1 of each candidate list are read
  without a check. Distances are not negative; a second distance of 0 gives an infinite
  or NaN quotient in double arithmetic, which is not below the ratio.
\<close>

definition RatioTest :: "real \<Rightarrow> nat \<Rightarrow> MatchPruner \<Rightarrow> MatchPruner option" where
  "RatioTest ratio i s = do {
     tmp_matches \<leftarrow> elem_at (putative_matches s) (int i);
     m0 \<leftarrow> elem_at tmp_matches 0;
     m1 \<leftarrow> elem_at tmp_matches 1;
     let score = distance m0 / distance m1;
     if distance m1 \<noteq> 0 \<and> score < ratio
     then Some (s\<lparr>pruned_matches := pruned_matches s @ [m0], scores := scores s @ [score]\<rparr>)
     else Some s
   }"

definition PruneMatchesByRatioTest :: "MatchPruner \<Rightarrow> real \<Rightarrow> MatchPruner option" where
  "PruneMatchesByRatioTest s ratio =
     for_loop [0..<length (putative_matches s)] (RatioTest ratio) s"

text \<open>Both other strategies start from the best candidate of each query.\<close>

definition initial_matches_of :: "MatchPruner \<Rightarrow> DMatch list option" where
  "initial_matches_of s = those (map (\<lambda>c. elem_at c 0) (putative_matches s))"

definition push_labelled ::
  "DMatch list \<Rightarrow> bool list \<Rightarrow> (nat \<Rightarrow> real option) \<Rightarrow> nat \<Rightarrow> MatchPruner \<Rightarrow> MatchPruner option"
where
  "push_labelled initial_matches labels score i s = do {
     l \<leftarrow> elem_at labels (int i);
     if l then do {
       m \<leftarrow> elem_at initial_matches (int i);
       c \<leftarrow> score i;
       Some (s\<lparr>pruned_matches := pruned_matches s @ [m], scores := scores s @ [c]\<rparr>)
     }
     else Some s
   }"

definition PruneMatchesByGMS :: "MatchPruner \<Rightarrow> Size \<Rightarrow> real \<Rightarrow> MatchPruner option" where
  "PruneMatchesByGMS s grid_size alpha = do {
     initial_matches \<leftarrow> initial_matches_of s;
     gms_matcher \<leftarrow> GMS_Matcher_ctor (query_kpts s) (query_image s) (refer_kpts s)
                      (refer_image s) initial_matches grid_size alpha;
     (n, labels, gms_matcher) \<leftarrow> GetInlierMask gms_matcher [] True True;
     for_loop [0..<length labels] (push_labelled initial_matches labels (\<lambda>i. Some 1)) s
   }"

definition PruneMatchesByLPM ::
  "LPM_Matcher \<Rightarrow> MatchPruner \<Rightarrow> int \<Rightarrow> real \<Rightarrow> real \<Rightarrow> int \<Rightarrow> real \<Rightarrow> real \<Rightarrow> MatchPruner option"
where
  "PruneMatchesByLPM lpm s knn0 lambda0 tau0 knn1 lambda1 tau1 = do {
     initial_matches \<leftarrow> initial_matches_of s;
     query_pts \<leftarrow> those (map (\<lambda>m. map_option pt (elem_at (query_kpts s) (queryIdx m))) initial_matches);
     refer_pts \<leftarrow> those (map (\<lambda>m. map_option pt (elem_at (refer_kpts s) (trainIdx m))) initial_matches);
     let (cost0, labels0) = lpm query_pts refer_pts knn0 lambda0 tau0 None;
     let (cost1, labels1) = lpm query_pts refer_pts knn1 lambda1 tau1 (Some labels0);
     for_loop [0..<length labels1]
       (push_labelled initial_matches labels1 (\<lambda>i. elem_at cost1 (int i))) s
   }"

text \<open>
  \<^verbatim>\<open>PruneMatches\<close>: the strategy runs, then the matched points and the distance
  rows are built; \<^verbatim>\<open>knn\<close> is read from element 0 of the putative matches.
\<close>

definition matched_row ::
  "MatchPruner \<Rightarrow> nat \<Rightarrow> DMatch \<Rightarrow> (Point2f \<times> Point2f \<times> real list) option"
where
  "matched_row s knn m = do {
     q \<leftarrow> elem_at (query_kpts s) (queryIdx m);
     r \<leftarrow> elem_at (refer_kpts s) (trainIdx m);
     candidates \<leftarrow> elem_at (putative_matches s) (queryIdx m);
     pdata \<leftarrow> those (map (\<lambda>j. map_option distance (elem_at candidates (int j))) [0..<knn]);
     Some (pt q, pt r, pdata)
   }"

definition PruneMatches :: "LPM_Matcher \<Rightarrow> MatchPruner \<Rightarrow> MatchPruner option" where
  "PruneMatches lpm s = do {
     s \<leftarrow> (case pruner_method s of
            PRUNER_RATIO \<Rightarrow> PruneMatchesByRatioTest s (8 / 10)
          | PRUNER_GMS \<Rightarrow> PruneMatchesByGMS s \<lparr>width = 15, height = 15\<rparr> 6
          | PRUNER_LPM \<Rightarrow> PruneMatchesByLPM lpm s 8 (8 / 10) (2 / 10) 8 (5 / 10) (2 / 10));
     first \<leftarrow> elem_at (putative_matches s) 0;
     let knn = length first;
     rows \<leftarrow> those (map (matched_row s knn) (pruned_matches s));
     Some (s\<lparr>query_mpts := map fst rows, refer_mpts := map (fst \<circ> snd) rows,
             knn_distances := map (snd \<circ> snd) rows\<rparr>)
   }"

text \<open>The constructor of \<^verbatim>\<open>MatchPruner\<close> stores its arguments and prunes.\<close>

definition MatchPruner_ctor ::
  "LPM_Matcher \<Rightarrow> Size \<Rightarrow> Size \<Rightarrow> KeyPoint list \<Rightarrow> KeyPoint list \<Rightarrow> DMatch list list \<Rightarrow> PrunerType
   \<Rightarrow> MatchPruner option"
where
  "MatchPruner_ctor lpm img0 img1 keypts0 keypts1 matches method =
     PruneMatches lpm \<lparr>query_image = img0, refer_image = img1, query_kpts = keypts0,
       refer_kpts = keypts1, putative_matches = matches, pruner_method = method,
       pruned_matches = [], query_mpts = [], refer_mpts = [], knn_distances = [],
       scores = []\<rparr>"

section \<open>Notions used in the statements and proofs\<close>

text \<open>
  A left cell's entry after a pass is exactly one of the sentinels -1 and -2 or a
  right cell, and it is -1 exactly when the cell's row of votes is all zero.
\<close>

definition cell_state_ok :: "GMS_Matcher \<Rightarrow> nat \<Rightarrow> bool" where
  "cell_state_ok s i =
    (let c = mCellPairs s ! i; row = mMotionStatistics s ! i
     in (c = -1 \<or> c = -2 \<or> (0 \<le> c \<and> c < mGridNumberRight s)) \<and>
        (c = -1 \<longleftrightarrow> (\<forall>v \<in> set row. v = 0)))"

text \<open>The members that \<^verbatim>\<open>Run\<close> does not write.\<close>

definition same_config :: "GMS_Matcher \<Rightarrow> GMS_Matcher \<Rightarrow> bool" where
  "same_config s t \<longleftrightarrow>
     mvP1 t = mvP1 s \<and> mvP2 t = mvP2 s \<and> mvMatches t = mvMatches s \<and>
     mNumberMatches t = mNumberMatches s \<and> mGridSizeLeft t = mGridSizeLeft s \<and>
     mGridSizeRight t = mGridSizeRight s \<and> mGridNumberLeft t = mGridNumberLeft s \<and>
     mGridNumberRight t = mGridNumberRight s \<and> mGridNeighborLeft t = mGridNeighborLeft s \<and>
     mGridNeighborRight t = mGridNeighborRight s \<and> mAlpha t = mAlpha s"

text \<open>The votes matrix has one row per left cell and one column per right cell;
  its entries are counts.\<close>

definition votes_shape :: "GMS_Matcher \<Rightarrow> bool" where
  "votes_shape s \<longleftrightarrow> length (mMotionStatistics s) = nat (mGridNumberLeft s) \<and>
    (\<forall>row \<in> set (mMotionStatistics s). length row = nat (mGridNumberRight s))"

definition votes_ok :: "GMS_Matcher \<Rightarrow> bool" where
  "votes_ok s \<longleftrightarrow>
     length (mMotionStatistics s) = nat (mGridNumberLeft s) \<and>
     (\<forall>row \<in> set (mMotionStatistics s).
        length row = nat (mGridNumberRight s) \<and> (\<forall>v \<in> set row. 0 \<le> v))"

text \<open>The state of a pass after its three resets.\<close>

definition pass_reset :: "GMS_Matcher \<Rightarrow> GMS_Matcher" where
  "pass_reset s = s\<lparr>mMotionStatistics := map (map (\<lambda>_. 0)) (mMotionStatistics s),
      mCellPairs := replicate (nat (mGridNumberLeft s)) (-1),
      mNumberPointsInPerCellLeft := replicate (nat (mGridNumberLeft s)) 0\<rparr>"

text \<open>The invariant of the maximum scan after \<open>k\<close> right cells.\<close>

definition scan_inv :: "int list \<Rightarrow> int \<Rightarrow> nat \<Rightarrow> int \<times> int \<Rightarrow> bool" where
  "scan_inv value cp0 k = (\<lambda>(cp, mx). 0 \<le> mx \<and> (\<forall>j<k. value ! j \<le> mx) \<and>
     (if \<exists>j<k. 0 < value ! j
      then 0 \<le> cp \<and> nat cp < k \<and> value ! nat cp = mx \<and> 0 < mx \<and> (\<forall>j<nat cp. value ! j < mx)
      else cp = cp0 \<and> mx = 0))"

text \<open>A step of a search loop never lowers \<^verbatim>\<open>max_inlier\<close>, and leaves
  \<^verbatim>\<open>vbInliers\<close> alone unless it raises it.\<close>

definition improves ::
  "GMS_Matcher \<times> bool list \<times> int \<Rightarrow> GMS_Matcher \<times> bool list \<times> int \<Rightarrow> bool"
where
  "improves a b \<longleftrightarrow>
     snd (snd a) \<le> snd (snd b) \<and> (snd (snd b) = snd (snd a) \<longrightarrow> fst (snd b) = fst (snd a))"

text \<open>
  The neighbour tables as the constructor and \<^verbatim>\<open>SetScale\<close> build them, on grids
  whose sides are positive.
\<close>

definition tables_ok :: "GMS_Matcher \<Rightarrow> bool" where
  "tables_ok s \<longleftrightarrow>
     0 < width (mGridSizeLeft s) \<and> 0 < height (mGridSizeLeft s) \<and>
     0 < width (mGridSizeRight s) \<and> 0 < height (mGridSizeRight s) \<and>
     mGridNumberLeft s = width (mGridSizeLeft s) * height (mGridSizeLeft s) \<and>
     mGridNumberRight s = width (mGridSizeRight s) * height (mGridSizeRight s) \<and>
     (\<exists>neighbor. zeros (mGridNumberLeft s) 9 = Some neighbor \<and>
        mGridNeighborLeft s = InitializeNeighbors neighbor (mGridSizeLeft s)) \<and>
     (\<exists>neighbor. zeros (mGridNumberRight s) 9 = Some neighbor \<and>
        mGridNeighborRight s = InitializeNeighbors neighbor (mGridSizeRight s))"

text \<open>
  The left cell of match \<open>i\<close> under a grid type and its right cell, as the grid indexer
  computes them from the two points of the match.
\<close>

definition left_cell :: "GMS_Matcher \<Rightarrow> nat \<Rightarrow> int \<Rightarrow> int" where
  "left_cell s i GridType = GetGridIndexLeft s (mvP1 s ! nat (fst (mvMatches s ! i))) GridType"

definition right_cell :: "GMS_Matcher \<Rightarrow> nat \<Rightarrow> int" where
  "right_cell s i = GetGridIndexRight s (mvP2 s ! nat (snd (mvMatches s ! i)))"

text \<open>The matcher after the passes of \<^verbatim>\<open>Run\<close> over the grid types 1 to \<open>GridType\<close>.\<close>

definition after_grid_type :: "GMS_Matcher \<Rightarrow> int \<Rightarrow> int \<Rightarrow> GMS_Matcher option" where
  "after_grid_type s RotationType GridType = do {
     s \<leftarrow> RunInit s;
     for_loop [1..GridType] (GridPass RotationType) s
   }"

text \<open>
  Match \<open>i\<close> is marked under a grid type: in the state \<open>sg\<close> after the pass over that
  grid type, the pairing of its left cell has survived (it is no sentinel) and is its
  own right cell.
\<close>

definition marked_under :: "GMS_Matcher \<Rightarrow> GMS_Matcher \<Rightarrow> nat \<Rightarrow> int \<Rightarrow> bool" where
  "marked_under s sg i GridType =
    (let l = left_cell s i GridType; pairing = mCellPairs sg ! nat l
     in l \<noteq> -1 \<and> 0 \<le> pairing \<and> pairing = right_cell s i)"

text \<open>The test of the marking loop, on the stored match pairs.\<close>

definition marked_code :: "GMS_Matcher \<Rightarrow> nat \<Rightarrow> bool" where
  "marked_code s i \<longleftrightarrow> fst (mvMatchPairs s ! i) \<noteq> -1 \<and>
     mCellPairs s ! nat (fst (mvMatchPairs s ! i)) = snd (mvMatchPairs s ! i)"

text \<open>The right grid has no negative side and no right point a negative coordinate.\<close>

definition right_ok :: "GMS_Matcher \<Rightarrow> bool" where
  "right_ok s \<longleftrightarrow> 0 \<le> width (mGridSizeRight s) \<and> 0 \<le> height (mGridSizeRight s) \<and>
     (\<forall>p \<in> set (mvP2 s). 0 \<le> fst p \<and> 0 \<le> snd p)"

text \<open>The state of a run after the pass over grid type \<open>g\<close>.\<close>

definition pass_done :: "GMS_Matcher \<Rightarrow> int \<Rightarrow> GMS_Matcher \<Rightarrow> bool" where
  "pass_done s g sg \<longleftrightarrow> same_config s sg \<and> votes_ok sg \<and>
     length (mvMatchPairs sg) = mNumberMatches s \<and> length (mvbInlierMask sg) = mNumberMatches s \<and>
     (\<forall>i<mNumberMatches s. mvMatchPairs sg ! i = (left_cell s i g, right_cell s i) \<and>
        0 \<le> snd (mvMatches s ! i) \<and> nat (snd (mvMatches s ! i)) < length (mvP2 s))"

text \<open>
  The inlier count of one hypothesis of the search (a scale and a rotation type), run
  on the matcher as \<^verbatim>\<open>GetInlierMask\<close> receives it, and the hypotheses that each
  setting of the two flags evaluates.
\<close>

definition hypothesis_count :: "GMS_Matcher \<Rightarrow> int \<Rightarrow> int \<Rightarrow> int option" where
  "hypothesis_count s Scale RotationType = do {
     s \<leftarrow> SetScale s Scale;
     (num_inlier, s) \<leftarrow> Run s RotationType;
     Some num_inlier
   }"

definition searched_scales :: "bool \<Rightarrow> int list" where
  "searched_scales WithScale = (if WithScale then [0..4] else [0])"

definition searched_rotations :: "bool \<Rightarrow> int list" where
  "searched_rotations WithRotation = (if WithRotation then [1..8] else [1])"

text \<open>The members that neither \<^verbatim>\<open>SetScale\<close> nor \<^verbatim>\<open>Run\<close> writes.\<close>

definition same_input :: "GMS_Matcher \<Rightarrow> GMS_Matcher \<Rightarrow> bool" where
  "same_input s t \<longleftrightarrow>
     mvP1 t = mvP1 s \<and> mvP2 t = mvP2 s \<and> mvMatches t = mvMatches s \<and>
     mNumberMatches t = mNumberMatches s \<and> mGridSizeLeft t = mGridSizeLeft s \<and>
     mGridNumberLeft t = mGridNumberLeft s \<and> mGridNeighborLeft t = mGridNeighborLeft s \<and>
     mAlpha t = mAlpha s"

text \<open>
  Well-formed input: one match per counted match, match indices inside the point
  vectors, left points with no negative coordinate, right points inside the unit
  square without its far edges.
\<close>

definition input_ok :: "GMS_Matcher \<Rightarrow> bool" where
  "input_ok s \<longleftrightarrow>
     length (mvMatches s) = mNumberMatches s \<and>
     (\<forall>m \<in> set (mvMatches s).
        0 \<le> fst m \<and> nat (fst m) < length (mvP1 s) \<and> 0 \<le> snd m \<and> nat (snd m) < length (mvP2 s)) \<and>
     (\<forall>p \<in> set (mvP1 s). 0 \<le> fst p \<and> 0 \<le> snd p) \<and>
     (\<forall>p \<in> set (mvP2 s). 0 \<le> fst p \<and> fst p < 1 \<and> 0 \<le> snd p \<and> snd p < 1)"

text \<open>
  What holds of the matcher during a run on well-formed input: the vectors have their
  sizes, and the stored cell pairs are the left sentinel or a left cell, and below the
  number of right cells.
\<close>

definition pass_ready :: "GMS_Matcher \<Rightarrow> bool" where
  "pass_ready a \<longleftrightarrow> tables_ok a \<and> input_ok a \<and> votes_ok a \<and>
     length (mNumberPointsInPerCellLeft a) = nat (mGridNumberLeft a) \<and>
     length (mCellPairs a) = nat (mGridNumberLeft a) \<and>
     length (mvMatchPairs a) = mNumberMatches a \<and>
     length (mvbInlierMask a) = mNumberMatches a \<and>
     (\<forall>mp \<in> set (mvMatchPairs a).
        (fst mp = -1 \<or> (0 \<le> fst mp \<and> fst mp < mGridNumberLeft a)) \<and> snd mp < mGridNumberRight a)"

text \<open>The left grid and its neighbour table as the constructor builds them.\<close>

definition left_ok :: "GMS_Matcher \<Rightarrow> bool" where
  "left_ok s \<longleftrightarrow>
     mGridNumberLeft s = width (mGridSizeLeft s) * height (mGridSizeLeft s) \<and>
     (\<exists>neighbor. zeros (mGridNumberLeft s) 9 = Some neighbor \<and>
        mGridNeighborLeft s = InitializeNeighbors neighbor (mGridSizeLeft s))"

text \<open>The states of a search loop: the input of the call, whatever the rest.\<close>

definition search_state :: "GMS_Matcher \<Rightarrow> GMS_Matcher \<times> bool list \<times> int \<Rightarrow> bool" where
  "search_state s x \<longleftrightarrow> same_input s (fst x)"

text \<open>
  A small matcher for the examples: two 4 x 4 images, three matches, a 2 x 2 grid.
  \<open>example_scaled\<close> is the matcher after \<^verbatim>\<open>SetScale(0)\<close>.
\<close>

definition example_matcher :: "real \<Rightarrow> GMS_Matcher" where
  "example_matcher alpha =
    \<lparr>mvP1 = [(1 / 4, 1 / 4), (1 / 4, 1 / 4), (3 / 4, 3 / 4)],
     mvP2 = [(1 / 4, 1 / 4), (1 / 4, 1 / 4), (3 / 4, 1 / 4)],
     mvMatches = [(0, 0), (1, 1), (2, 2)], mNumberMatches = 3,
     mGridSizeLeft = \<lparr>width = 2, height = 2\<rparr>, mGridSizeRight = \<lparr>width = 0, height = 0\<rparr>,
     mGridNumberLeft = 4, mGridNumberRight = 0,
     mMotionStatistics = [], mNumberPointsInPerCellLeft = [], mCellPairs = [],
     mvMatchPairs = [], mvbInlierMask = [],
     mGridNeighborLeft =
       InitializeNeighbors (replicate 4 (replicate 9 0)) \<lparr>width = 2, height = 2\<rparr>,
     mGridNeighborRight = [], mAlpha = alpha\<rparr>"

definition example_scaled :: "real \<Rightarrow> GMS_Matcher" where
  "example_scaled alpha =
    (example_matcher alpha)\<lparr>mGridSizeRight := \<lparr>width = 2, height = 2\<rparr>, mGridNumberRight := 4,
      mGridNeighborRight :=
        InitializeNeighbors (replicate 4 (replicate 9 0)) \<lparr>width = 2, height = 2\<rparr>\<rparr>"

text \<open>The example matcher after \<^verbatim>\<open>SetScale\<close>, with a right grid of side \<open>w\<close>.\<close>

definition example_right :: "real \<Rightarrow> int \<Rightarrow> GMS_Matcher" where
  "example_right alpha w =
    (example_matcher alpha)\<lparr>mGridSizeRight := \<lparr>width = w, height = w\<rparr>, mGridNumberRight := w * w,
      mGridNeighborRight :=
        InitializeNeighbors (replicate (nat (w * w)) (replicate 9 0)) \<lparr>width = w, height = w\<rparr>\<rparr>"

text \<open>The example after the votes of grid type 1.\<close>

definition example_voted :: GMS_Matcher where
  "example_voted =
    (example_scaled 1)\<lparr>mMotionStatistics := [[2, 0, 0, 0], [0, 0, 0, 0], [0, 0, 0, 0], [0, 1, 0, 0]],
      mNumberPointsInPerCellLeft := [2, 0, 0, 1], mCellPairs := [-1, -1, -1, -1],
      mvMatchPairs := [(0, 0), (0, 0), (3, 1)], mvbInlierMask := [False, False, False]\<rparr>"



section \<open>Grid indexer: verification\<close>

lemma upd_if: "(if c then xs else xs[k := v]) = xs[k := (if c then xs ! k else v)]"
  by simp

lemma sdiv_nonneg: "0 \<le> (a::int) \<Longrightarrow> 0 < b \<Longrightarrow> a sdiv b = a div b"
  by (simp add: signed_divide_int_def sgn_if)

lemma smod_nonneg: "0 \<le> (a::int) \<Longrightarrow> 0 < b \<Longrightarrow> a smod b = a mod b"
  by (simp add: signed_modulo_int_def sgn_if)

lemma div_bound:
  assumes "0 < (w::int)" "idx < w * h"
  shows "idx div w < h"
proof (rule ccontr)
  assume "\<not> idx div w < h"
  then have "h \<le> idx div w" by simp
  then have "w * h \<le> w * (idx div w)" using assms(1) by (simp add: mult_left_mono)
  moreover have "w * (idx div w) + idx mod w = idx" by simp
  moreover have "0 \<le> idx mod w" using assms(1) by simp
  ultimately show False using assms(2) by linarith
qed

text \<open>The double loop of \<^verbatim>\<open>GetNB9\<close> unrolled, for a cell at column \<open>x\<close>, row \<open>y\<close>.\<close>

lemma nb_fold_closed:
  "fold (\<lambda>(yi, xi) NB9.
          if x + xi < 0 \<or> x + xi \<ge> width gs \<or> y + yi < 0 \<or> y + yi \<ge> height gs
          then NB9
          else NB9[nat (xi + 4 + yi * 3) := x + xi + (y + yi) * width gs])
        nb_offsets (replicate 9 (-1)) =
   [grid_cell gs (x - 1) (y - 1), grid_cell gs x (y - 1), grid_cell gs (x + 1) (y - 1),
    grid_cell gs (x - 1) y, grid_cell gs x y, grid_cell gs (x + 1) y,
    grid_cell gs (x - 1) (y + 1), grid_cell gs x (y + 1), grid_cell gs (x + 1) (y + 1)]"
  unfolding nb_offsets_def grid_cell_def
  by (simp add: upd_if eval_nat_numeral split del: if_split cong: if_cong)

lemma GetNB9_closed:
  assumes "0 \<le> idx" "0 < width gs"
  shows "GetNB9 idx gs =
   [neighbour_cell idx gs (-1) (-1), neighbour_cell idx gs (-1) 0, neighbour_cell idx gs (-1) 1,
    neighbour_cell idx gs 0 (-1), neighbour_cell idx gs 0 0, neighbour_cell idx gs 0 1,
    neighbour_cell idx gs 1 (-1), neighbour_cell idx gs 1 0, neighbour_cell idx gs 1 1]"
  unfolding GetNB9_def neighbour_cell_def Let_def sdiv_nonneg[OF assms] smod_nonneg[OF assms]
    nb_fold_closed
  by simp

lemma grid_cell_valid:
  assumes "0 < width gs"
  shows "grid_cell gs xx yy \<noteq> -1 \<longleftrightarrow> 0 \<le> xx \<and> xx < width gs \<and> 0 \<le> yy \<and> yy < height gs"
proof -
  have "xx + yy * width gs \<noteq> -1" if b: "0 \<le> xx" "0 \<le> yy"
  proof -
    have "0 \<le> yy * width gs" using assms b by simp
    then show ?thesis using b by linarith
  qed
  then show ?thesis unfolding grid_cell_def by auto
qed

lemma valid_slots_abs:
  assumes "2 \<le> width gs" "2 \<le> height gs" "0 \<le> x" "x < width gs" "0 \<le> y" "y < height gs"
  shows "valid_slots
    [grid_cell gs (x - 1) (y - 1), grid_cell gs x (y - 1), grid_cell gs (x + 1) (y - 1),
     grid_cell gs (x - 1) y, grid_cell gs x y, grid_cell gs (x + 1) y,
     grid_cell gs (x - 1) (y + 1), grid_cell gs x (y + 1), grid_cell gs (x + 1) (y + 1)]
   = (if (x = 0 \<or> x = width gs - 1) \<and> (y = 0 \<or> y = height gs - 1) then 4
      else if (x = 0 \<or> x = width gs - 1) \<or> (y = 0 \<or> y = height gs - 1) then 6 else 9)"
proof -
  have w: "0 < width gs" using assms by simp
  show ?thesis using assms unfolding valid_slots_def
    by (auto simp add: grid_cell_valid[OF w])
qed

lemma valid_slots_GetNB9:
  assumes "2 \<le> width gs" "2 \<le> height gs" "0 \<le> idx" "idx < width gs * height gs"
  shows "valid_slots (GetNB9 idx gs) = expected_valid idx gs"
proof -
  have w: "0 < width gs" using assms by simp
  have x: "0 \<le> idx mod width gs" "idx mod width gs < width gs" using w by simp_all
  have y: "0 \<le> idx div width gs" using assms w by (simp add: pos_imp_zdiv_nonneg_iff)
  have y2: "idx div width gs < height gs" using assms w by (simp add: div_bound)
  show ?thesis
    unfolding expected_valid_def on_x_border_def on_y_border_def GetNB9_def Let_def
      sdiv_nonneg[OF assms(3) w] smod_nonneg[OF assms(3) w] nb_fold_closed
    by (rule valid_slots_abs[OF assms(1,2) x y y2])
qed

lemma InitializeNeighbors_nth:
  "i < length neighbor \<Longrightarrow> InitializeNeighbors neighbor gs ! i = GetNB9 (int i) gs"
  by (simp add: InitializeNeighbors_def)

lemma length_InitializeNeighbors [simp]:
  "length (InitializeNeighbors neighbor gs) = length neighbor"
  by (simp add: InitializeNeighbors_def)

text \<open>
  C9, as stated, fails on grids with a side of 1: the only cell of the 1 x 1 grid is
  on every border, a corner, and has 1 valid slot, not 4.
\<close>

theorem corner_cell_counterexample:
  "on_x_border 0 \<lparr>width = 1, height = 1\<rparr> \<and> on_y_border 0 \<lparr>width = 1, height = 1\<rparr>
   \<and> zeros (1 * 1) 9 = Some [[0, 0, 0, 0, 0, 0, 0, 0, 0]]
   \<and> valid_slots (InitializeNeighbors [[0, 0, 0, 0, 0, 0, 0, 0, 0]] \<lparr>width = 1, height = 1\<rparr> ! 0) = 1"
  by (simp add: on_x_border_def on_y_border_def InitializeNeighbors_def valid_slots_def
      GetNB9_def nb_offsets_def zeros_def eval_nat_numeral)

text \<open>
  C9 (amended): on a W x H grid with W and H at least 2, row \<open>i\<close> of the neighbour
  table built by \<^verbatim>\<open>InitializeNeighbors\<close> lists the 3 x 3 neighbourhood of cell \<open>i\<close> in
  row-major order, with -1 for the neighbours outside the grid, and has 4 valid slots
  for a corner cell, 6 for an edge cell that is no corner and 9 for an interior cell.
\<close>

theorem neighbor_table_rows:
  assumes "2 \<le> width gs" "2 \<le> height gs"
    and "zeros (width gs * height gs) 9 = Some neighbor" and "i < length neighbor"
  shows "InitializeNeighbors neighbor gs ! i =
     [neighbour_cell (int i) gs (-1) (-1), neighbour_cell (int i) gs (-1) 0,
      neighbour_cell (int i) gs (-1) 1,
      neighbour_cell (int i) gs 0 (-1), neighbour_cell (int i) gs 0 0,
      neighbour_cell (int i) gs 0 1,
      neighbour_cell (int i) gs 1 (-1), neighbour_cell (int i) gs 1 0,
      neighbour_cell (int i) gs 1 1]
    \<and> valid_slots (InitializeNeighbors neighbor gs ! i) = expected_valid (int i) gs"
proof -
  have w: "0 < width gs" using assms by simp
  have "length neighbor = nat (width gs * height gs)"
    using assms(3) by (auto simp: zeros_def split: if_splits)
  then have i: "int i < width gs * height gs" using assms(4) by linarith
  have "InitializeNeighbors neighbor gs ! i = GetNB9 (int i) gs"
    using assms(4) by (rule InitializeNeighbors_nth)
  then show ?thesis
    using GetNB9_closed[of "int i" gs] w valid_slots_GetNB9[OF assms(1,2) _ i] by simp
qed

theorem neighbor_table_rows_witness:
  "zeros (3 * 3) 9 = Some (replicate 9 (replicate 9 0))
   \<and> valid_slots (InitializeNeighbors (replicate 9 (replicate 9 0)) \<lparr>width = 3, height = 3\<rparr> ! 4) = 9
   \<and> valid_slots (InitializeNeighbors (replicate 9 (replicate 9 0)) \<lparr>width = 3, height = 3\<rparr> ! 1) = 6
   \<and> valid_slots (InitializeNeighbors (replicate 9 (replicate 9 0)) \<lparr>width = 3, height = 3\<rparr> ! 0) = 4"
  using neighbor_table_rows[of "\<lparr>width = 3, height = 3\<rparr>" "replicate 9 (replicate 9 0)" 4, THEN conjunct2]
    neighbor_table_rows[of "\<lparr>width = 3, height = 3\<rparr>" "replicate 9 (replicate 9 0)" 1, THEN conjunct2]
    neighbor_table_rows[of "\<lparr>width = 3, height = 3\<rparr>" "replicate 9 (replicate 9 0)" 0, THEN conjunct2]
  by (simp add: expected_valid_def on_x_border_def on_y_border_def zeros_def)

text \<open>
  The left index at the far edge: with a coordinate equal to 1, the column (or the row)
  is the grid width (or height) under each of the 4 grid types, and the bound check
  answers -1.
\<close>

lemma GetGridIndexLeft_far_edge:
  assumes "type \<in> {1, 2, 3, 4}" and "fst p = 1 \<or> snd p = 1"
  shows "GetGridIndexLeft s p type = -1"
proof -
  have "\<lfloor>of_int w + (1 / 2 :: real)\<rfloor> = w" for w :: int
    by (simp add: floor_unique)
  then show ?thesis
    using assms by (auto simp: GetGridIndexLeft_def Let_def)
qed

text \<open>
  C1: the point (1, 0) lies on the far edge. On a 2 x 2 grid the left index is -1
  under each grid type, but \<^verbatim>\<open>GetGridIndexRight\<close>, which has no bound check, answers
  2, the first cell of the next row.
\<close>

theorem right_index_far_edge:
  "GetGridIndexRight (s\<lparr>mGridSizeRight := \<lparr>width = 2, height = 2\<rparr>\<rparr>) (1, 0) = 2
   \<and> GetGridIndexLeft (s\<lparr>mGridSizeLeft := \<lparr>width = 2, height = 2\<rparr>\<rparr>) (1, 0) 1 = -1"
  by (simp add: GetGridIndexRight_def GetGridIndexLeft_def)
section \<open>Loops, the maximum scan and the threshold test\<close>

lemma for_loop_append:
  "for_loop (xs @ ys) body s = do { s' \<leftarrow> for_loop xs body s; for_loop ys body s' }"
  by (induction xs arbitrary: s) (auto split: bind_splits)

lemma for_loop_snoc:
  "for_loop (xs @ [x]) body s = do { s' \<leftarrow> for_loop xs body s; body x s' }"
  by (induction xs arbitrary: s) (auto split: bind_splits)

text \<open>Invariant rule for a counting loop, with totality.\<close>

lemma for_loop_upt_total:
  assumes "I 0 s"
    and "\<And>i a. i < n \<Longrightarrow> I i a \<Longrightarrow> \<exists>b. body i a = Some b \<and> I (Suc i) b"
  shows "\<exists>s'. for_loop [0..<n] body s = Some s' \<and> I n s'"
  using assms(2)
proof (induction n)
  case 0
  then show ?case using assms(1) by simp
next
  case (Suc n)
  then obtain s1 where s1: "for_loop [0..<n] body s = Some s1" "I n s1"
    by (meson less_Suc_eq)
  from Suc.prems[of n s1] s1 obtain b where "body n s1 = Some b" "I (Suc n) b" by auto
  then show ?case using s1 by (simp add: for_loop_snoc)
qed

lemma for_loop_upt_invariant:
  assumes "for_loop [0..<n] body s = Some s'" and "I 0 s"
    and "\<And>i a b. i < n \<Longrightarrow> I i a \<Longrightarrow> body i a = Some b \<Longrightarrow> I (Suc i) b"
  shows "I n s'"
  using assms(1,3)
proof (induction n arbitrary: s')
  case 0
  then show ?case using assms(2) by simp
next
  case (Suc n)
  from Suc.prems(1) obtain s1 where s1: "for_loop [0..<n] body s = Some s1" "body n s1 = Some s'"
    by (auto simp: for_loop_snoc split: bind_splits)
  have "I n s1" using Suc.IH[OF s1(1)] Suc.prems(2) by (meson less_Suc_eq)
  then show ?case using Suc.prems(2)[of n s1 s'] s1(2) by simp
qed

lemma for_loop_invariant:
  assumes "for_loop xs body s = Some s'" and "P s"
    and "\<And>i a b. i \<in> set xs \<Longrightarrow> P a \<Longrightarrow> body i a = Some b \<Longrightarrow> P b"
  shows "P s'"
  using assms
proof (induction xs arbitrary: s)
  case Nil
  then show ?case by simp
next
  case (Cons x xs)
  from Cons.prems(1) obtain s1 where s1: "body x s = Some s1" "for_loop xs body s1 = Some s'"
    by (auto split: bind_splits)
  have "P s1" using Cons.prems(3)[of x s s1] Cons.prems(2) s1(1) by simp
  then show ?case using Cons.IH[OF s1(2)] Cons.prems(3) by auto
qed

text \<open>The maximum scan.\<close>

lemma scan_step:
  assumes "k < length value" "scan_inv value cp0 k a"
  shows "\<exists>b. max_vote_step value k a = Some b \<and> scan_inv value cp0 (Suc k) b"
proof -
  obtain cp mx where a: "a = (cp, mx)" by (cases a)
  show ?thesis
  proof (cases "value ! k > mx")
    case True
    then have b: "max_vote_step value k a = Some (int k, value ! k)"
      using assms(1) a by (simp add: max_vote_step_def elem_at_def)
    have "scan_inv value cp0 (Suc k) (int k, value ! k)"
      using assms(2) True a unfolding scan_inv_def
      by (auto simp: less_Suc_eq split: if_splits)
    then show ?thesis using b by simp
  next
    case False
    then have b: "max_vote_step value k a = Some (cp, mx)"
      using assms(1) a by (simp add: max_vote_step_def elem_at_def)
    have "scan_inv value cp0 (Suc k) (cp, mx)"
      using assms(2) False a unfolding scan_inv_def
      by (auto simp: less_Suc_eq split: if_splits)
    then show ?thesis using b by simp
  qed
qed

lemma scan_total:
  assumes "n \<le> length value"
  shows "\<exists>r. for_loop [0..<n] (max_vote_step value) (cp0, 0) = Some r \<and> scan_inv value cp0 n r"
proof (rule for_loop_upt_total)
  show "scan_inv value cp0 0 (cp0, 0)" by (simp add: scan_inv_def)
next
  fix i a assume "i < n" "scan_inv value cp0 i a"
  then show "\<exists>b. max_vote_step value i a = Some b \<and> scan_inv value cp0 (Suc i) b"
    using assms scan_step[of i "value" cp0 a] by simp
qed

lemma below_thresh_code [code]:
  "below_thresh alpha score thresh numpair =
    (if numpair = 0 \<or> thresh < 0 then False
     else let q = of_int thresh / of_nat numpair; s = of_int score
          in if 0 \<le> alpha then s < 0 \<or> s * s < alpha * alpha * q
             else s < 0 \<and> alpha * alpha * q < s * s)"
proof (cases "numpair = 0 \<or> thresh < 0")
  case True
  then show ?thesis by (simp add: below_thresh_def)
next
  case False
  define q :: real where "q = of_int thresh / of_nat numpair"
  define s :: real where "s = of_int score"
  have q0: "0 \<le> q" using False by (simp add: q_def)
  have sq: "sqrt (alpha * alpha * q) = \<bar>alpha\<bar> * sqrt q"
    by (simp add: real_sqrt_mult)
  have ss: "sqrt (s * s) = \<bar>s\<bar>" by simp
  have main: "(s < alpha * sqrt q) = (if 0 \<le> alpha then s < 0 \<or> s * s < alpha * alpha * q
             else s < 0 \<and> alpha * alpha * q < s * s)"
  proof (cases "0 \<le> alpha")
    case a: True
    show ?thesis
    proof (cases "s < 0")
      case True
      have "0 \<le> alpha * sqrt q" using a q0 by simp
      then show ?thesis using True a by simp
    next
      case s0: False
      have "(s * s < alpha * alpha * q) = (sqrt (s * s) < sqrt (alpha * alpha * q))"
        by (rule real_sqrt_less_iff[symmetric])
      also have "\<dots> = (s < alpha * sqrt q)" using s0 a unfolding sq ss by simp
      finally show ?thesis using s0 a by simp
    qed
  next
    case a: False
    show ?thesis
    proof (cases "s < 0")
      case True
      have "(alpha * alpha * q < s * s) = (sqrt (alpha * alpha * q) < sqrt (s * s))"
        by (rule real_sqrt_less_iff[symmetric])
      also have "\<dots> = (s < alpha * sqrt q)" using True a unfolding sq ss by simp
      finally show ?thesis using True a by simp
    next
      case s0: False
      have "alpha * sqrt q \<le> 0" using a q0 by (simp add: mult_nonpos_nonneg)
      then show ?thesis using s0 a by simp
    qed
  qed
  show ?thesis using False main by (simp add: below_thresh_def q_def s_def Let_def)
qed


section \<open>Voting and cell verification\<close>

lemma same_config_refl [simp]: "same_config s s"
  by (simp add: same_config_def)

lemma same_config_trans: "same_config s t \<Longrightarrow> same_config t u \<Longrightarrow> same_config s u"
  by (simp add: same_config_def)

lemma elem_at_Some: "elem_at xs i = Some v \<longleftrightarrow> 0 \<le> i \<and> nat i < length xs \<and> v = xs ! nat i"
  by (auto simp: elem_at_def)

lemma elem_at_None: "elem_at xs i = None \<longleftrightarrow> \<not> (0 \<le> i \<and> nat i < length xs)"
  by (auto simp: elem_at_def)

lemma elem_set_Some: "elem_set xs i v = Some ys \<longleftrightarrow> 0 \<le> i \<and> nat i < length xs \<and> ys = xs[nat i := v]"
  by (auto simp: elem_set_def)

lemma mat_inc_Some:
  "mat_inc m r c = Some m' \<longleftrightarrow>
     0 \<le> r \<and> nat r < length m \<and> 0 \<le> c \<and> nat c < length (m ! nat r) \<and>
     m' = m[nat r := (m ! nat r)[nat c := m ! nat r ! nat c + 1]]"
  by (auto simp: mat_inc_def elem_at_Some elem_at_None split: bind_splits)

lemma mat_at_Some:
  "mat_at m r c = Some v \<longleftrightarrow>
     0 \<le> r \<and> nat r < length m \<and> 0 \<le> c \<and> nat c < length (m ! nat r) \<and> v = m ! nat r ! nat c"
  by (auto simp: mat_at_def elem_at_Some elem_at_None split: bind_splits)

lemma set_update_nonneg:
  assumes "\<forall>v \<in> set xs. (0::int) \<le> v" "0 \<le> w"
  shows "\<forall>v \<in> set (xs[k := w]). 0 \<le> v"
  using assms set_update_subset_insert[of xs k w] by auto

lemma votes_ok_inc:
  assumes "votes_ok s" "mat_inc (mMotionStatistics s) l r = Some ms"
  shows "votes_ok (s\<lparr>mMotionStatistics := ms, mNumberPointsInPerCellLeft := np\<rparr>)"
proof -
  let ?m = "mMotionStatistics s"
  from assms(2) have l: "nat l < length ?m" and ms: "ms = ?m[nat l := (?m ! nat l)[nat r := ?m ! nat l ! nat r + 1]]"
    and r: "nat r < length (?m ! nat l)"
    by (simp_all add: mat_inc_Some)
  have row: "length (?m ! nat l) = nat (mGridNumberRight s)" "\<forall>v \<in> set (?m ! nat l). 0 \<le> v"
    using assms(1) nth_mem[OF l] by (simp_all add: votes_ok_def)
  have "0 \<le> ?m ! nat l ! nat r" using row(2) r by simp
  then have new: "\<forall>v \<in> set ((?m ! nat l)[nat r := ?m ! nat l ! nat r + 1]). 0 \<le> v"
    by (intro set_update_nonneg[OF row(2)]) simp
  have "\<forall>row \<in> set ms. length row = nat (mGridNumberRight s) \<and> (\<forall>v \<in> set row. 0 \<le> v)"
  proof
    fix row assume "row \<in> set ms"
    then have "row \<in> insert ((?m ! nat l)[nat r := ?m ! nat l ! nat r + 1]) (set ?m)"
      unfolding ms using set_update_subset_insert by fastforce
    then show "length row = nat (mGridNumberRight s) \<and> (\<forall>v \<in> set row. 0 \<le> v)"
      using new row(1) assms(1) by (auto simp: votes_ok_def)
  qed
  then show ?thesis using assms(1) ms by (simp add: votes_ok_def)
qed

lemma AssignMatchPair_frame:
  assumes "AssignMatchPair g i s = Some s'"
  shows "same_config s s'" "mCellPairs s' = mCellPairs s" "mvbInlierMask s' = mvbInlierMask s"
    "length (mNumberPointsInPerCellLeft s') = length (mNumberPointsInPerCellLeft s)"
    "length (mvMatchPairs s') = length (mvMatchPairs s)"
  using assms
  by (auto simp: AssignMatchPair_def Let_def same_config_def split: bind_splits if_splits)

lemma AssignMatchPair_votes:
  assumes "AssignMatchPair g i s = Some s'" "votes_ok s"
  shows "votes_ok s'"
proof -
  have *: "votes_ok (s\<lparr>mvMatchPairs := p\<rparr>)" for p
    using assms(2) by (simp add: votes_ok_def)
  show ?thesis
    using assms(1) * votes_ok_inc[OF *]
    by (auto simp: AssignMatchPair_def Let_def split: bind_splits if_splits)
qed

lemma AssignMatchPairs_frame:
  assumes "AssignMatchPairs s g = Some s'"
  shows "same_config s s' \<and> mCellPairs s' = mCellPairs s \<and> mvbInlierMask s' = mvbInlierMask s
    \<and> length (mNumberPointsInPerCellLeft s') = length (mNumberPointsInPerCellLeft s)
    \<and> length (mvMatchPairs s') = length (mvMatchPairs s)"
  using assms unfolding AssignMatchPairs_def
  by (rule for_loop_invariant) (auto dest: AssignMatchPair_frame intro: same_config_trans)

lemma AssignMatchPairs_votes:
  assumes "AssignMatchPairs s g = Some s'" "votes_ok s"
  shows "votes_ok s'"
  using assms unfolding AssignMatchPairs_def
  by (rule for_loop_invariant) (auto dest: AssignMatchPair_votes)

lemma tentative_pairing_scan:
  assumes "length value = nat (mGridNumberRight s)" and "\<exists>j<length value. 0 < value ! j"
  shows "\<exists>r. tentative_pairing s value cell_pair = Some r \<and> 0 \<le> r \<and> r < mGridNumberRight s
     \<and> (\<forall>j<length value. value ! j \<le> value ! nat r)
     \<and> (\<forall>j<nat r. value ! j < value ! nat r)"
proof -
  obtain cp mx where r: "for_loop [0..<length value] (max_vote_step value) (cell_pair, 0) = Some (cp, mx)"
    and inv: "scan_inv value cell_pair (length value) (cp, mx)"
    using scan_total[of "length value" "value" cell_pair] by auto
  have "tentative_pairing s value cell_pair = Some cp"
    using r assms(1) by (simp add: tentative_pairing_def)
  moreover have "0 \<le> cp \<and> nat cp < length value \<and> value ! nat cp = mx \<and> (\<forall>j<nat cp. value ! j < mx)"
    and "\<forall>j<length value. value ! j \<le> mx"
    using inv assms(2) unfolding scan_inv_def by auto
  ultimately show ?thesis using assms(1) by auto
qed

lemma votes_row:
  assumes "votes_ok s" "i < nat (mGridNumberLeft s)"
  shows "length (mMotionStatistics s ! i) = nat (mGridNumberRight s)"
    and "\<forall>v \<in> set (mMotionStatistics s ! i). 0 \<le> v"
proof -
  have "mMotionStatistics s ! i \<in> set (mMotionStatistics s)"
    using assms by (simp add: votes_ok_def)
  then show "length (mMotionStatistics s ! i) = nat (mGridNumberRight s)"
    and "\<forall>v \<in> set (mMotionStatistics s ! i). 0 \<le> v"
    using assms(1) by (simp_all add: votes_ok_def)
qed

lemma row_has_vote:
  assumes "\<forall>v \<in> set row. (0::int) \<le> v" "sum_list row \<noteq> 0"
  shows "\<exists>j<length row. 0 < row ! j"
proof -
  have "\<not> (\<forall>v \<in> set row. v = 0)"
    using assms sum_list_nonneg_eq_0_iff[of row] by auto
  then obtain v where "v \<in> set row" "v \<noteq> 0" by auto
  then have "v \<in> set row" "0 < v" using assms(1) by force+
  then show ?thesis by (metis in_set_conv_nth)
qed

lemma if_Some_eq: "((if c then Some x else Some y) = Some z) = (z = (if c then x else y))"
  by auto

lemma VerifyCellPair_voted:
  assumes "VerifyCellPair rp i s = Some s'"
    and "elem_at (mMotionStatistics s) (int i) = Some row" and "sum_list row \<noteq> 0"
  shows "\<exists>cell_pair idx score thresh numpair.
     elem_at (mCellPairs s) (int i) = Some cell_pair \<and>
     tentative_pairing s row cell_pair = Some idx \<and>
     neighbor_support (s\<lparr>mCellPairs := (mCellPairs s)[i := idx]\<rparr>) rp i idx
       = Some (score, thresh, numpair) \<and>
     s' = (if below_thresh (mAlpha s) score thresh numpair
           then s\<lparr>mCellPairs := (mCellPairs s)[i := -2]\<rparr>
           else s\<lparr>mCellPairs := (mCellPairs s)[i := idx]\<rparr>)"
  using assms
  by (simp add: VerifyCellPair_def Let_def bind_eq_Some_conv split_beta if_Some_eq
      del: if_split cong: if_cong)

lemma VerifyCellPair_unvoted:
  assumes "VerifyCellPair rp i s = Some s'"
    and "elem_at (mMotionStatistics s) (int i) = Some row" and "sum_list row = 0"
  shows "i < length (mCellPairs s) \<and> s' = s\<lparr>mCellPairs := (mCellPairs s)[i := -1]\<rparr>"
  using assms
  by (auto simp add: VerifyCellPair_def bind_eq_Some_conv elem_set_Some)

lemma VerifyCellPair_result:
  assumes "VerifyCellPair rp i s = Some s'" "votes_ok s" "i < nat (mGridNumberLeft s)"
  shows "\<exists>c. s' = s\<lparr>mCellPairs := (mCellPairs s)[i := c]\<rparr> \<and> i < length (mCellPairs s) \<and>
     (c = -1 \<or> c = -2 \<or> (0 \<le> c \<and> c < mGridNumberRight s)) \<and>
     (c = -1 \<longleftrightarrow> (\<forall>v \<in> set (mMotionStatistics s ! i). v = 0))"
proof -
  let ?row = "mMotionStatistics s ! i"
  have row: "elem_at (mMotionStatistics s) (int i) = Some ?row"
    using assms(2,3) by (simp add: elem_at_Some votes_ok_def)
  note vr = votes_row[OF assms(2,3)]
  show ?thesis
  proof (cases "sum_list ?row = 0")
    case True
    then have "\<forall>v \<in> set ?row. v = 0"
      using vr(2) sum_list_nonneg_eq_0_iff[of ?row] by auto
    then show ?thesis
      using VerifyCellPair_unvoted[OF assms(1) row True] by simp
  next
    case False
    have pos: "\<exists>j<length ?row. 0 < ?row ! j" using row_has_vote[OF vr(2) False] .
    then obtain j where "j < length ?row" "0 < ?row ! j" by auto
    then have "?row ! j \<in> set ?row" "?row ! j \<noteq> 0" by simp_all
    then have nz: "\<not> (\<forall>v \<in> set ?row. v = 0)" by blast
    from VerifyCellPair_voted[OF assms(1) row False] obtain cell_pair idx where
      cp: "elem_at (mCellPairs s) (int i) = Some cell_pair"
      and idx: "tentative_pairing s ?row cell_pair = Some idx"
      and s': "s' = s\<lparr>mCellPairs := (mCellPairs s)[i := idx]\<rparr> \<or> s' = s\<lparr>mCellPairs := (mCellPairs s)[i := -2]\<rparr>"
      by (auto split: if_splits)
    have "0 \<le> idx \<and> idx < mGridNumberRight s"
      using tentative_pairing_scan[OF vr(1) pos, of cell_pair] idx by auto
    moreover have "i < length (mCellPairs s)" using cp by (simp add: elem_at_Some)
    ultimately show ?thesis using s' nz by auto
  qed
qed

lemma VerifyCellPairs_result:
  assumes "VerifyCellPairs s rot = Some s'" "votes_ok s"
  shows "\<exists>cp. s' = s\<lparr>mCellPairs := cp\<rparr> \<and> length cp = length (mCellPairs s) \<and>
     nat (mGridNumberLeft s) \<le> length (mCellPairs s) \<and>
     (\<forall>i<nat (mGridNumberLeft s). cell_state_ok s' i)"
proof -
  from assms(1) obtain rp where
    loop: "for_loop [0..<nat (mGridNumberLeft s)] (VerifyCellPair rp) s = Some s'"
    by (auto simp: VerifyCellPairs_def split: bind_splits)
  define I where "I k a \<longleftrightarrow> (\<exists>cp. a = s\<lparr>mCellPairs := cp\<rparr> \<and>
      length cp = length (mCellPairs s) \<and> k \<le> length (mCellPairs s) \<and>
      (\<forall>i<k. cell_state_ok a i))" for k a
  have "I (nat (mGridNumberLeft s)) s'"
  proof (rule for_loop_upt_invariant[OF loop])
    show "I 0 s" unfolding I_def by (intro exI[of _ "mCellPairs s"]) simp
  next
    fix k a b
    assume k: "k < nat (mGridNumberLeft s)" and a: "I k a" and step: "VerifyCellPair rp k a = Some b"
    from a obtain cp where a_eq: "a = s\<lparr>mCellPairs := cp\<rparr>"
      and cp: "length cp = length (mCellPairs s)" and ok: "\<forall>i<k. cell_state_ok a i"
      by (auto simp: I_def)
    have va: "votes_ok a" using assms(2) by (simp add: a_eq votes_ok_def)
    have ka: "k < nat (mGridNumberLeft a)" using k by (simp add: a_eq)
    from VerifyCellPair_result[OF step va ka] obtain c where
      b: "b = a\<lparr>mCellPairs := (mCellPairs a)[k := c]\<rparr>" and kl: "k < length (mCellPairs a)"
      and c: "c = -1 \<or> c = -2 \<or> (0 \<le> c \<and> c < mGridNumberRight a)"
        "c = -1 \<longleftrightarrow> (\<forall>v \<in> set (mMotionStatistics a ! k). v = 0)"
      by auto
    have b_eq: "b = s\<lparr>mCellPairs := cp[k := c]\<rparr>" by (simp add: b a_eq)
    have "cell_state_ok b i" if "i < Suc k" for i
    proof (cases "i = k")
      case True
      then show ?thesis using c kl by (simp add: b cell_state_ok_def)
    next
      case False
      then have "i < k" using that by simp
      then have "cell_state_ok a i" using ok by simp
      then show ?thesis using False by (simp add: b cell_state_ok_def)
    qed
    moreover have "Suc k \<le> length (mCellPairs s)" using kl cp by (simp add: a_eq)
    ultimately show "I (Suc k) b" unfolding I_def
      using b_eq cp by (intro exI[of _ "cp[k := c]"]) simp
  qed
  then show ?thesis by (auto simp: I_def)
qed

lemma MarkInlier_frame:
  assumes "MarkInlier i s = Some s'"
  shows "\<exists>m. s' = s\<lparr>mvbInlierMask := m\<rparr> \<and> length m = length (mvbInlierMask s)"
proof -
  have "s' = s \<or> (\<exists>m. s' = s\<lparr>mvbInlierMask := m\<rparr> \<and> length m = length (mvbInlierMask s))"
    using assms
    by (auto simp: MarkInlier_def elem_set_Some split: bind_splits if_splits)
  then show ?thesis
  proof
    assume "s' = s"
    then show ?thesis by (intro exI[of _ "mvbInlierMask s"]) simp
  qed
qed

lemma MarkInliers_frame:
  assumes "for_loop xs MarkInlier s = Some s'"
  shows "\<exists>m. s' = s\<lparr>mvbInlierMask := m\<rparr> \<and> length m = length (mvbInlierMask s)"
  using assms
proof (rule for_loop_invariant)
  show "\<exists>m. s = s\<lparr>mvbInlierMask := m\<rparr> \<and> length m = length (mvbInlierMask s)"
    by (intro exI[of _ "mvbInlierMask s"]) simp
next
  fix i a b
  assume "\<exists>m. a = s\<lparr>mvbInlierMask := m\<rparr> \<and> length m = length (mvbInlierMask s)"
    and "MarkInlier i a = Some b"
  then obtain m m' where "a = s\<lparr>mvbInlierMask := m\<rparr>" "length m = length (mvbInlierMask s)"
    "b = a\<lparr>mvbInlierMask := m'\<rparr>" "length m' = length (mvbInlierMask a)"
    using MarkInlier_frame by blast
  then show "\<exists>m. b = s\<lparr>mvbInlierMask := m\<rparr> \<and> length m = length (mvbInlierMask s)"
    by (intro exI[of _ m']) simp
qed

text \<open>One pass, cut into its stages.\<close>

lemma GridPass_stages:
  assumes "GridPass rot g s = Some s'"
  obtains a v where "0 \<le> mGridNumberLeft s" "AssignMatchPairs (pass_reset s) g = Some a"
    "VerifyCellPairs a rot = Some v" "for_loop [0..<mNumberMatches v] MarkInlier v = Some s'"
  using assms
  by (auto simp: GridPass_def Let_def assign_def pass_reset_def split: bind_splits if_splits)

lemma votes_ok_reset:
  assumes "length (mMotionStatistics s) = nat (mGridNumberLeft s)"
    "\<forall>row \<in> set (mMotionStatistics s). length row = nat (mGridNumberRight s)"
  shows "votes_ok (pass_reset s)"
  using assms by (auto simp: votes_ok_def pass_reset_def)

lemma votes_ok_shape: "votes_ok s \<Longrightarrow> votes_shape s"
  by (simp add: votes_ok_def votes_shape_def)

lemma GridPass_cells:
  assumes "GridPass rot g s = Some s'" "votes_shape s"
  shows "same_config s s' \<and> votes_ok s' \<and> length (mCellPairs s') = nat (mGridNumberLeft s') \<and>
    (\<forall>i<nat (mGridNumberLeft s'). cell_state_ok s' i)"
proof -
  from assms(1) obtain a v where L: "0 \<le> mGridNumberLeft s"
    and a: "AssignMatchPairs (pass_reset s) g = Some a"
    and v: "VerifyCellPairs a rot = Some v"
    and m: "for_loop [0..<mNumberMatches v] MarkInlier v = Some s'"
    by (rule GridPass_stages)
  have r: "votes_ok (pass_reset s)" using assms(2) by (simp add: votes_ok_reset votes_shape_def)
  have va: "votes_ok a" using AssignMatchPairs_votes[OF a r] .
  have fa: "same_config (pass_reset s) a" "mCellPairs a = mCellPairs (pass_reset s)"
    using AssignMatchPairs_frame[OF a] by simp_all
  have ca: "same_config s a" using fa(1) by (simp add: same_config_def pass_reset_def)
  have la: "length (mCellPairs a) = nat (mGridNumberLeft a)"
    using fa(2) ca by (simp add: pass_reset_def same_config_def)
  from VerifyCellPairs_result[OF v va] obtain cp where
    v_eq: "v = a\<lparr>mCellPairs := cp\<rparr>" and cp: "length cp = length (mCellPairs a)"
    and ok: "\<forall>i<nat (mGridNumberLeft a). cell_state_ok v i" by auto
  from MarkInliers_frame[OF m] obtain mk where s_eq: "s' = v\<lparr>mvbInlierMask := mk\<rparr>" by auto
  have c1: "same_config s s'" using ca by (simp add: s_eq v_eq same_config_def)
  have c2: "votes_ok s'" using va by (simp add: s_eq v_eq votes_ok_def)
  have c3: "length (mCellPairs s') = nat (mGridNumberLeft s')"
    using cp la by (simp add: s_eq v_eq)
  have c4: "cell_state_ok s' i" if "i < nat (mGridNumberLeft s')" for i
  proof -
    have "i < nat (mGridNumberLeft a)" using that by (simp add: s_eq v_eq)
    then have "cell_state_ok v i" using ok by simp
    then show ?thesis by (simp add: s_eq cell_state_ok_def)
  qed
  show ?thesis using c1 c2 c3 c4 by simp
qed

lemma RunInit_votes:
  assumes "RunInit s = Some s0"
  shows "votes_ok s0 \<and> same_config s s0"
  using assms
  by (auto simp: RunInit_def zeros_def votes_ok_def same_config_def split: bind_splits if_splits)

lemma GridPasses_votes:
  assumes "for_loop gs (GridPass rot) s = Some s'" "votes_ok s"
  shows "votes_ok s'"
  using assms(1,2)
  by (rule for_loop_invariant) (use GridPass_cells votes_ok_shape in blast)

section \<open>The neighbourhood support\<close>

lemma grid_cell_range:
  assumes "0 < width gs"
  shows "grid_cell gs xx yy = -1 \<or> (0 \<le> grid_cell gs xx yy \<and> grid_cell gs xx yy < width gs * height gs)"
proof (cases "xx < 0 \<or> xx \<ge> width gs \<or> yy < 0 \<or> yy \<ge> height gs")
  case True
  then show ?thesis by (simp add: grid_cell_def)
next
  case False
  then have b: "0 \<le> xx" "xx < width gs" "0 \<le> yy" "yy + 1 \<le> height gs" by simp_all
  have "0 \<le> yy * width gs" using b assms by simp
  moreover have "(yy + 1) * width gs \<le> height gs * width gs"
    using b(4) assms by (simp add: mult_right_mono)
  ultimately have "0 \<le> xx + yy * width gs \<and> xx + yy * width gs < width gs * height gs"
    using b by (simp add: algebra_simps)
  then show ?thesis using False by (simp add: grid_cell_def)
qed

lemma GetNB9_entries:
  assumes "0 \<le> idx" "0 < width gs"
  shows "length (GetNB9 idx gs) = 9"
    and "\<forall>e \<in> set (GetNB9 idx gs). e = -1 \<or> (0 \<le> e \<and> e < width gs * height gs)"
  using grid_cell_range[OF assms(2)]
  by (simp_all add: GetNB9_closed[OF assms] neighbour_cell_def)

lemma GetNB9_centre:
  assumes "0 \<le> idx" "0 < width gs" "idx < width gs * height gs"
  shows "GetNB9 idx gs ! 4 = idx"
proof -
  have "idx div width gs < height gs" using assms by (simp add: div_bound)
  moreover have "0 \<le> idx div width gs" using assms by (simp add: pos_imp_zdiv_nonneg_iff)
  moreover have "0 \<le> idx mod width gs" "idx mod width gs < width gs" using assms(2) by simp_all
  ultimately have "neighbour_cell idx gs 0 0 = idx"
    by (simp add: neighbour_cell_def grid_cell_def)
  then show ?thesis by (simp add: GetNB9_closed[OF assms(1,2)])
qed

lemma rotation_pattern:
  assumes "rp \<in> set kRotationPatterns"
  shows "length rp = 9 \<and> rp ! 4 = 5 \<and> (\<forall>p \<in> set rp. 1 \<le> p \<and> p \<le> 9)"
  using assms by (auto simp: kRotationPatterns_def)

lemma table_row:
  assumes "zeros n 9 = Some neighbor" "n = width gs * height gs" "0 < width gs" "0 \<le> c" "c < n"
  shows "elem_at (InitializeNeighbors neighbor gs) c = Some (GetNB9 c gs)"
proof -
  have "length neighbor = nat n" using assms(1) by (auto simp: zeros_def split: if_splits)
  then have "nat c < length neighbor" using assms(4,5) by simp
  then show ?thesis using assms(4) by (simp add: elem_at_def InitializeNeighbors_nth)
qed

lemma neighbor_support_total:
  assumes t: "tables_ok s" and v: "votes_shape s"
    and np: "length (mNumberPointsInPerCellLeft s) = nat (mGridNumberLeft s)"
    and i: "int i < mGridNumberLeft s" and r: "0 \<le> r" "r < mGridNumberRight s"
    and rp: "CurrentRP \<in> set kRotationPatterns"
  shows "\<exists>score thresh numpair.
     neighbor_support s CurrentRP i r = Some (score, thresh, numpair) \<and> 1 \<le> numpair"
proof -
  let ?gl = "mGridSizeLeft s" and ?gr = "mGridSizeRight s"
  let ?lt = "GetNB9 (int i) ?gl" and ?rt = "GetNB9 r ?gr"
  have wl: "0 < width ?gl" and wr: "0 < width ?gr"
    and nl: "mGridNumberLeft s = width ?gl * height ?gl"
    and nr: "mGridNumberRight s = width ?gr * height ?gr"
    using t by (simp_all add: tables_ok_def)
  have lt: "elem_at (mGridNeighborLeft s) (int i) = Some ?lt"
    using t i table_row[of "mGridNumberLeft s" _ ?gl "int i"] by (auto simp: tables_ok_def)
  have rt: "elem_at (mGridNeighborRight s) r = Some ?rt"
    using t r table_row[of "mGridNumberRight s" _ ?gr r] by (auto simp: tables_ok_def)
  have lt_len: "length ?lt = 9"
    and lt_ent: "\<forall>e \<in> set ?lt. e = -1 \<or> (0 \<le> e \<and> e < mGridNumberLeft s)"
    using GetNB9_entries[of "int i" ?gl] wl nl by simp_all
  have rt_len: "length ?rt = 9"
    and rt_ent: "\<forall>e \<in> set ?rt. e = -1 \<or> (0 \<le> e \<and> e < mGridNumberRight s)"
    using GetNB9_entries[OF r(1) wr] nr by simp_all
  have lt4: "?lt ! 4 = int i" using GetNB9_centre[of "int i" ?gl] wl i nl by simp
  have rt4: "?rt ! 4 = r" using GetNB9_centre[OF r(1) wr] r(2) nr by simp
  note pat = rotation_pattern[OF rp]
  define I :: "nat \<Rightarrow> int \<times> int \<times> nat \<Rightarrow> bool" where "I k a \<longleftrightarrow> (4 < k \<longrightarrow> 1 \<le> snd (snd a))" for k a
  have step: "\<exists>b. support_step s CurrentRP ?lt ?rt j a = Some b \<and> I (Suc j) b"
    if j: "j < 9" and a: "I j a" for j a
  proof -
    obtain score thresh numpair where a_eq: "a = (score, thresh, numpair)" by (cases a)
    let ?ll = "?lt ! j" and ?p = "CurrentRP ! j"
    let ?rr = "?rt ! nat (?p - 1)"
    have p: "1 \<le> ?p" "?p \<le> 9" using pat j by simp_all
    have e1: "elem_at ?lt (int j) = Some ?ll" using j lt_len by (simp add: elem_at_def)
    have e2: "elem_at CurrentRP (int j) = Some ?p" using j pat by (simp add: elem_at_def)
    have e3: "elem_at ?rt (?p - 1) = Some ?rr" using p rt_len by (simp add: elem_at_def)
    show ?thesis
    proof (cases "?ll = -1 \<or> ?rr = -1")
      case True
      have "j \<noteq> 4"
      proof
        assume "j = 4"
        then have "?ll = int i" "?rr = r" using lt4 rt4 pat by simp_all
        then show False using True r(1) by auto
      qed
      then have "I (Suc j) a" using a by (auto simp: I_def)
      moreover have "support_step s CurrentRP ?lt ?rt j a = Some a"
        using True by (simp add: support_step_def a_eq e1 e2 e3)
      ultimately show ?thesis by simp
    next
      case False
      have "?ll \<in> set ?lt" using j lt_len by simp
      then have ll: "0 \<le> ?ll" "?ll < mGridNumberLeft s" using lt_ent False by auto
      have "nat (?p - 1) < length ?rt" using p rt_len by simp
      then have "?rr \<in> set ?rt" by simp
      then have rr: "0 \<le> ?rr" "?rr < mGridNumberRight s" using rt_ent False by auto
      have row: "nat ?ll < length (mMotionStatistics s)"
        using ll v by (simp add: votes_shape_def)
      then have "length (mMotionStatistics s ! nat ?ll) = nat (mGridNumberRight s)"
        using v by (simp add: votes_shape_def)
      then have m: "mat_at (mMotionStatistics s) ?ll ?rr
          = Some (mMotionStatistics s ! nat ?ll ! nat ?rr)"
        using ll rr row by (simp add: mat_at_Some)
      have n: "elem_at (mNumberPointsInPerCellLeft s) ?ll
          = Some (mNumberPointsInPerCellLeft s ! nat ?ll)"
        using ll np by (simp add: elem_at_def)
      have "support_step s CurrentRP ?lt ?rt j a
          = Some (score + mMotionStatistics s ! nat ?ll ! nat ?rr,
                  thresh + mNumberPointsInPerCellLeft s ! nat ?ll, numpair + 1)"
        using False by (simp add: support_step_def a_eq e1 e2 e3 m n)
      then show ?thesis by (simp add: I_def)
    qed
  qed
  have "\<exists>b. for_loop [0..<9] (support_step s CurrentRP ?lt ?rt) (0, 0, 0) = Some b \<and> I 9 b"
    by (rule for_loop_upt_total) (simp add: I_def, use step in blast)
  then show ?thesis
    by (auto simp: neighbor_support_def lt rt I_def)
qed


section \<open>Match pairs and the marking of inliers\<close>

lemma same_config_cells:
  assumes "same_config s a"
  shows "left_cell a i g = left_cell s i g" "right_cell a i = right_cell s i"
  using assms
  by (simp_all add: same_config_def left_cell_def right_cell_def GetGridIndexLeft_def
      GetGridIndexRight_def)

lemma AssignMatchPair_pairs:
  assumes "AssignMatchPair g i s = Some s'"
  shows "i < length (mvMatchPairs s) \<and> i < length (mvMatches s) \<and>
     0 \<le> snd (mvMatches s ! i) \<and> nat (snd (mvMatches s ! i)) < length (mvP2 s) \<and>
     mvMatchPairs s' = (mvMatchPairs s)[i := (left_cell s i g,
        if g = 1 then right_cell s i else snd (mvMatchPairs s ! i))]"
proof -
  from assms obtain m lp rp mp where
    m: "elem_at (mvMatches s) (int i) = Some m" and lp: "elem_at (mvP1 s) (fst m) = Some lp"
    and rp: "elem_at (mvP2 s) (snd m) = Some rp" and mp: "elem_at (mvMatchPairs s) (int i) = Some mp"
    and rest: "(let lgidx = GetGridIndexLeft s lp g;
         rgidx = (if g = 1 then GetGridIndexRight s rp else snd mp);
         s = s\<lparr>mvMatchPairs := (mvMatchPairs s)[i := (lgidx, rgidx)]\<rparr>
       in if lgidx < 0 \<or> rgidx < 0 then Some s
          else do {
            ms \<leftarrow> mat_inc (mMotionStatistics s) lgidx rgidx;
            n \<leftarrow> elem_at (mNumberPointsInPerCellLeft s) lgidx;
            Some (s\<lparr>mMotionStatistics := ms,
               mNumberPointsInPerCellLeft := (mNumberPointsInPerCellLeft s)[nat lgidx := n + 1]\<rparr>)
          }) = Some s'"
    unfolding AssignMatchPair_def by (auto simp: bind_eq_Some_conv)
  have m': "m = mvMatches s ! i" "i < length (mvMatches s)" using m by (simp_all add: elem_at_Some)
  have lp': "lp = mvP1 s ! nat (fst m)" using lp by (simp add: elem_at_Some)
  have rp': "rp = mvP2 s ! nat (snd m)" "0 \<le> snd m" "nat (snd m) < length (mvP2 s)"
    using rp by (simp_all add: elem_at_Some)
  have mp': "mp = mvMatchPairs s ! i" "i < length (mvMatchPairs s)"
    using mp by (simp_all add: elem_at_Some)
  have "mvMatchPairs s' = (mvMatchPairs s)[i := (GetGridIndexLeft s lp g,
        if g = 1 then GetGridIndexRight s rp else snd mp)]"
    using rest by (auto simp: Let_def bind_eq_Some_conv split: if_splits)
  then show ?thesis using m' lp' rp' mp' by (simp add: left_cell_def right_cell_def)
qed

lemma AssignMatchPairs_pairs:
  assumes "AssignMatchPairs s g = Some s'" "length (mvMatchPairs s) = mNumberMatches s"
  shows "\<forall>i<mNumberMatches s. mvMatchPairs s' ! i =
      (left_cell s i g, if g = 1 then right_cell s i else snd (mvMatchPairs s ! i))
      \<and> 0 \<le> snd (mvMatches s ! i) \<and> nat (snd (mvMatches s ! i)) < length (mvP2 s)"
proof -
  define I where "I k a \<longleftrightarrow> same_config s a \<and> length (mvMatchPairs a) = length (mvMatchPairs s) \<and>
     (\<forall>i<k. mvMatchPairs a ! i =
        (left_cell s i g, if g = 1 then right_cell s i else snd (mvMatchPairs s ! i))
        \<and> 0 \<le> snd (mvMatches s ! i) \<and> nat (snd (mvMatches s ! i)) < length (mvP2 s)) \<and>
     (\<forall>i\<ge>k. mvMatchPairs a ! i = mvMatchPairs s ! i)" for k a
  have "I (mNumberMatches s) s'"
  proof (rule for_loop_upt_invariant[OF assms(1)[unfolded AssignMatchPairs_def]])
    show "I 0 s" by (simp add: I_def)
  next
    fix k a b
    assume k: "k < mNumberMatches s" and a: "I k a" and step: "AssignMatchPair g k a = Some b"
    have sc: "same_config s a" using a by (simp add: I_def)
    note cells = same_config_cells[OF sc]
    have cfg: "mvMatches a = mvMatches s" "mvP2 a = mvP2 s" using sc by (simp_all add: same_config_def)
    note p = AssignMatchPair_pairs[OF step, unfolded cells cfg]
    have old: "mvMatchPairs a ! k = mvMatchPairs s ! k" using a by (simp add: I_def)
    have len: "length (mvMatchPairs a) = length (mvMatchPairs s)" using a by (simp add: I_def)
    have "same_config s b"
      using AssignMatchPair_frame(1)[OF step] sc same_config_trans by blast
    moreover have "length (mvMatchPairs b) = length (mvMatchPairs s)"
      using p len by simp
    moreover have "mvMatchPairs b ! i =
        (left_cell s i g, if g = 1 then right_cell s i else snd (mvMatchPairs s ! i))
        \<and> 0 \<le> snd (mvMatches s ! i) \<and> nat (snd (mvMatches s ! i)) < length (mvP2 s)"
      if "i < Suc k" for i
    proof (cases "i = k")
      case True
      then show ?thesis using p old by simp
    next
      case False
      then have "i < k" using that by simp
      then show ?thesis using a p False by (simp add: I_def)
    qed
    moreover have "mvMatchPairs b ! i = mvMatchPairs s ! i" if "Suc k \<le> i" for i
      using that a p by (simp add: I_def)
    ultimately show "I (Suc k) b" by (simp add: I_def)
  qed
  then show ?thesis by (simp add: I_def)
qed
lemma MarkInlier_result:
  assumes "MarkInlier i s = Some s'" "i < length (mvbInlierMask s)"
  shows "s' = s\<lparr>mvbInlierMask := (mvbInlierMask s)[i := mvbInlierMask s ! i \<or> marked_code s i]\<rparr>"
proof -
  from assms(1) obtain mp where mp: "elem_at (mvMatchPairs s) (int i) = Some mp"
    and rest: "(if fst mp = -1 then Some s
       else do {
         cp \<leftarrow> elem_at (mCellPairs s) (fst mp);
         if cp = snd mp then do {
           mask \<leftarrow> elem_set (mvbInlierMask s) (int i) True;
           Some (s\<lparr>mvbInlierMask := mask\<rparr>)
         }
         else Some s
       }) = Some s'"
    unfolding MarkInlier_def by (auto simp: bind_eq_Some_conv)
  have mp': "mp = mvMatchPairs s ! i" using mp by (simp add: elem_at_Some)
  have keep: "s = s\<lparr>mvbInlierMask := (mvbInlierMask s)[i := mvbInlierMask s ! i]\<rparr>" by simp
  show ?thesis
  proof (cases "fst mp = -1")
    case True
    then have "s' = s" "\<not> marked_code s i" using rest mp' by (simp_all add: marked_code_def)
    then show ?thesis using keep by simp
  next
    case False
    then obtain cp where cp: "elem_at (mCellPairs s) (fst mp) = Some cp"
      and r2: "(if cp = snd mp then do {
           mask \<leftarrow> elem_set (mvbInlierMask s) (int i) True;
           Some (s\<lparr>mvbInlierMask := mask\<rparr>)
         } else Some s) = Some s'"
      using rest by (auto simp: bind_eq_Some_conv)
    have cp': "cp = mCellPairs s ! nat (fst mp)" using cp by (simp add: elem_at_Some)
    show ?thesis
    proof (cases "cp = snd mp")
      case True
      then have "marked_code s i" using False cp' mp' by (simp add: marked_code_def)
      moreover have "s' = s\<lparr>mvbInlierMask := (mvbInlierMask s)[i := True]\<rparr>"
        using r2 True by (auto simp: bind_eq_Some_conv elem_set_Some)
      ultimately show ?thesis by simp
    next
      case c: False
      then have "s' = s" "\<not> marked_code s i" using r2 False cp' mp' by (simp_all add: marked_code_def)
      then show ?thesis using keep by simp
    qed
  qed
qed

lemma marked_code_mask [simp]: "marked_code (s\<lparr>mvbInlierMask := m\<rparr>) i = marked_code s i"
  by (simp add: marked_code_def)

lemma MarkInliers_result:
  assumes "for_loop [0..<n] MarkInlier s = Some s'" "n \<le> length (mvbInlierMask s)"
  shows "\<exists>m. s' = s\<lparr>mvbInlierMask := m\<rparr> \<and> length m = length (mvbInlierMask s) \<and>
     (\<forall>i<n. m ! i = (mvbInlierMask s ! i \<or> marked_code s i))"
proof -
  define I where "I k a \<longleftrightarrow> (\<exists>m. a = s\<lparr>mvbInlierMask := m\<rparr> \<and> length m = length (mvbInlierMask s) \<and>
     (\<forall>i<k. m ! i = (mvbInlierMask s ! i \<or> marked_code s i)) \<and>
     (\<forall>i\<ge>k. m ! i = mvbInlierMask s ! i))" for k a
  have "I n s'"
  proof (rule for_loop_upt_invariant[OF assms(1)])
    show "I 0 s" unfolding I_def by (intro exI[of _ "mvbInlierMask s"]) simp
  next
    fix k a b
    assume k: "k < n" and a: "I k a" and step: "MarkInlier k a = Some b"
    from a obtain m where a_eq: "a = s\<lparr>mvbInlierMask := m\<rparr>"
      and len: "length m = length (mvbInlierMask s)"
      and lo: "\<forall>i<k. m ! i = (mvbInlierMask s ! i \<or> marked_code s i)"
      and hi: "\<forall>i\<ge>k. m ! i = mvbInlierMask s ! i"
      by (auto simp: I_def)
    have kl: "k < length (mvbInlierMask a)" using k assms(2) len by (simp add: a_eq)
    have b_eq: "b = s\<lparr>mvbInlierMask := m[k := m ! k \<or> marked_code s k]\<rparr>"
      using MarkInlier_result[OF step kl] by (simp add: a_eq)
    have kl': "k < length m" using kl by (simp add: a_eq)
    have "\<forall>i<Suc k. (m[k := m ! k \<or> marked_code s k]) ! i = (mvbInlierMask s ! i \<or> marked_code s i)"
      using lo hi kl' by (auto simp: less_Suc_eq nth_list_update)
    moreover have "\<forall>i\<ge>Suc k. (m[k := m ! k \<or> marked_code s k]) ! i = mvbInlierMask s ! i"
      using hi by (auto simp: nth_list_update)
    ultimately show "I (Suc k) b" unfolding I_def
      using b_eq len by (intro exI[of _ "m[k := m ! k \<or> marked_code s k]"]) simp
  qed
  then show ?thesis by (auto simp: I_def)
qed

text \<open>What a pass does to the match pairs and to the mask.\<close>

lemma GridPass_marks:
  assumes "GridPass rot g s = Some s'" "votes_shape s"
    and "length (mvMatchPairs s) = mNumberMatches s" "length (mvbInlierMask s) = mNumberMatches s"
  shows "same_config s s' \<and> votes_ok s' \<and>
    length (mvMatchPairs s') = mNumberMatches s \<and> length (mvbInlierMask s') = mNumberMatches s \<and>
    (\<forall>i<mNumberMatches s.
       mvMatchPairs s' ! i =
         (left_cell s i g, if g = 1 then right_cell s i else snd (mvMatchPairs s ! i)) \<and>
       0 \<le> snd (mvMatches s ! i) \<and> nat (snd (mvMatches s ! i)) < length (mvP2 s) \<and>
       mvbInlierMask s' ! i = (mvbInlierMask s ! i \<or> marked_code s' i))"
proof -
  from assms(1) obtain a v where L: "0 \<le> mGridNumberLeft s"
    and a: "AssignMatchPairs (pass_reset s) g = Some a"
    and v: "VerifyCellPairs a rot = Some v"
    and m: "for_loop [0..<mNumberMatches v] MarkInlier v = Some s'"
    by (rule GridPass_stages)
  have r: "votes_ok (pass_reset s)" using assms(2) by (simp add: votes_ok_reset votes_shape_def)
  have va: "votes_ok a" using AssignMatchPairs_votes[OF a r] .
  note fa = AssignMatchPairs_frame[OF a]
  have ca: "same_config s a" using fa by (simp add: same_config_def pass_reset_def)
  have ma: "mvbInlierMask a = mvbInlierMask s" using fa by (simp add: pass_reset_def)
  have la: "length (mvMatchPairs a) = mNumberMatches s" using fa assms(3) by (simp add: pass_reset_def)
  have rc: "same_config (pass_reset s) s" by (simp add: same_config_def pass_reset_def)
  have pa: "\<forall>i<mNumberMatches s. mvMatchPairs a ! i =
      (left_cell s i g, if g = 1 then right_cell s i else snd (mvMatchPairs s ! i))
      \<and> 0 \<le> snd (mvMatches s ! i) \<and> nat (snd (mvMatches s ! i)) < length (mvP2 s)"
    using AssignMatchPairs_pairs[OF a] assms(3) same_config_cells[OF rc]
    by (simp add: pass_reset_def)
  from VerifyCellPairs_result[OF v va] obtain cp where v_eq: "v = a\<lparr>mCellPairs := cp\<rparr>" by auto
  have nv: "mNumberMatches v = mNumberMatches s" using ca by (simp add: v_eq same_config_def)
  have lv: "mNumberMatches v \<le> length (mvbInlierMask v)" using ma assms(4) nv by (simp add: v_eq)
  from MarkInliers_result[OF m lv] obtain mk where s_eq: "s' = v\<lparr>mvbInlierMask := mk\<rparr>"
    and lm: "length mk = length (mvbInlierMask v)"
    and mk: "\<forall>i<mNumberMatches v. mk ! i = (mvbInlierMask v ! i \<or> marked_code v i)"
    by auto
  have c1: "same_config s s'" using ca by (simp add: s_eq v_eq same_config_def)
  have c2: "votes_ok s'" using va by (simp add: s_eq v_eq votes_ok_def)
  have c3: "length (mvMatchPairs s') = mNumberMatches s" using la by (simp add: s_eq v_eq)
  have c4: "length (mvbInlierMask s') = mNumberMatches s" using lm ma assms(4) by (simp add: s_eq v_eq)
  have c5: "mvMatchPairs s' ! i =
         (left_cell s i g, if g = 1 then right_cell s i else snd (mvMatchPairs s ! i)) \<and>
       0 \<le> snd (mvMatches s ! i) \<and> nat (snd (mvMatches s ! i)) < length (mvP2 s) \<and>
       mvbInlierMask s' ! i = (mvbInlierMask s ! i \<or> marked_code s' i)"
    if "i < mNumberMatches s" for i
  proof -
    have "mk ! i = (mvbInlierMask v ! i \<or> marked_code v i)" using mk that nv by simp
    then have "mvbInlierMask s' ! i = (mvbInlierMask s ! i \<or> marked_code s' i)"
      using ma by (simp add: s_eq v_eq)
    then show ?thesis using pa that by (simp add: s_eq v_eq)
  qed
  show ?thesis using c1 c2 c3 c4 c5 by simp
qed
lemma upto_1_4: "[1..4] = [1, 2, 3, 4]" "[1..3] = [1, 2, 3]" "[1..2] = [1, 2]" "[1..1] = [1]"
  by (simp_all add: upto_rec1)

lemma Run_chain:
  assumes "Run s rot = Some (cnt, s')"
  obtains s0 s1 s2 s3 where "RunInit s = Some s0" "GridPass rot 1 s0 = Some s1"
    "GridPass rot 2 s1 = Some s2" "GridPass rot 3 s2 = Some s3" "GridPass rot 4 s3 = Some s'"
  using assms unfolding Run_def upto_1_4 by (auto simp: bind_eq_Some_conv)

lemma after_grid_type_chain:
  assumes "RunInit s = Some s0" "GridPass rot 1 s0 = Some s1"
    "GridPass rot 2 s1 = Some s2" "GridPass rot 3 s2 = Some s3" "GridPass rot 4 s3 = Some s4"
  shows "after_grid_type s rot 1 = Some s1" "after_grid_type s rot 2 = Some s2"
    "after_grid_type s rot 3 = Some s3" "after_grid_type s rot 4 = Some s4"
  using assms unfolding after_grid_type_def upto_1_4 by simp_all

lemma RunInit_result:
  assumes "RunInit s = Some s0"
  shows "length (mvMatchPairs s0) = mNumberMatches s" "length (mvbInlierMask s0) = mNumberMatches s"
    "\<forall>i<mNumberMatches s. \<not> mvbInlierMask s0 ! i"
  using assms by (auto simp: RunInit_def bind_eq_Some_conv)

lemma right_cell_nonneg:
  assumes "right_ok s" "0 \<le> snd (mvMatches s ! i)" "nat (snd (mvMatches s ! i)) < length (mvP2 s)"
  shows "0 \<le> right_cell s i"
proof -
  let ?p = "mvP2 s ! nat (snd (mvMatches s ! i))"
  have "?p \<in> set (mvP2 s)" using assms(3) by simp
  then have p: "0 \<le> fst ?p" "0 \<le> snd ?p" using assms(1) by (simp_all add: right_ok_def)
  have g: "0 \<le> width (mGridSizeRight s)" "0 \<le> height (mGridSizeRight s)"
    using assms(1) by (simp_all add: right_ok_def)
  have "0 \<le> \<lfloor>fst ?p * of_int (width (mGridSizeRight s))\<rfloor>"
    and "0 \<le> \<lfloor>snd ?p * of_int (height (mGridSizeRight s))\<rfloor>"
    using p g by simp_all
  then show ?thesis using g(1) by (simp add: right_cell_def GetGridIndexRight_def Let_def)
qed

lemma pass_first:
  assumes "RunInit s = Some s0" "GridPass rot 1 s0 = Some s1"
  shows "pass_done s 1 s1 \<and> (\<forall>i<mNumberMatches s. mvbInlierMask s1 ! i = marked_code s1 i)"
proof -
  have c0: "same_config s s0" and v0: "votes_shape s0"
    using RunInit_votes[OF assms(1)] votes_ok_shape by blast+
  note r0 = RunInit_result[OF assms(1)]
  have n0: "mNumberMatches s0 = mNumberMatches s" using c0 by (simp add: same_config_def)
  note g = GridPass_marks[OF assms(2) v0, unfolded n0 same_config_cells[OF c0], OF r0(1,2)]
  have "same_config s s1" using g c0 same_config_trans by blast
  moreover have "mvMatches s0 = mvMatches s" "mvP2 s0 = mvP2 s"
    using c0 by (simp_all add: same_config_def)
  ultimately show ?thesis using g r0(3) by (simp add: pass_done_def)
qed

lemma pass_next:
  assumes "pass_done s g0 s0" "GridPass rot g s0 = Some s1" "g \<noteq> 1"
  shows "pass_done s g s1 \<and>
    (\<forall>i<mNumberMatches s. mvbInlierMask s1 ! i = (mvbInlierMask s0 ! i \<or> marked_code s1 i))"
proof -
  have c0: "same_config s s0" and v0: "votes_shape s0"
    and l0: "length (mvMatchPairs s0) = mNumberMatches s" "length (mvbInlierMask s0) = mNumberMatches s"
    and p0: "\<forall>i<mNumberMatches s. mvMatchPairs s0 ! i = (left_cell s i g0, right_cell s i)"
    using assms(1) votes_ok_shape by (simp_all add: pass_done_def)
  have n0: "mNumberMatches s0 = mNumberMatches s" using c0 by (simp add: same_config_def)
  note g = GridPass_marks[OF assms(2) v0, unfolded n0 same_config_cells[OF c0], OF l0]
  have "same_config s s1" using g c0 same_config_trans by blast
  moreover have "mvMatches s0 = mvMatches s" "mvP2 s0 = mvP2 s"
    using c0 by (simp_all add: same_config_def)
  ultimately show ?thesis using g p0 assms(3) by (simp add: pass_done_def)
qed

lemma marked_code_under:
  assumes "pass_done s g sg" "right_ok s" "i < mNumberMatches s"
  shows "marked_code sg i = marked_under s sg i g"
proof -
  have p: "mvMatchPairs sg ! i = (left_cell s i g, right_cell s i)"
    and r: "0 \<le> snd (mvMatches s ! i)" "nat (snd (mvMatches s ! i)) < length (mvP2 s)"
    using assms(1,3) by (simp_all add: pass_done_def)
  have "0 \<le> right_cell s i" using right_cell_nonneg[OF assms(2) r] .
  then show ?thesis by (auto simp: marked_code_def marked_under_def p Let_def)
qed

section \<open>A run on well-formed input returns\<close>

lemma cell_index_range:
  assumes "0 \<le> x" "x < w" "0 \<le> y" "y < h"
  shows "0 \<le> x + y * w \<and> x + y * w < w * (h::int)"
proof -
  have "0 \<le> y * w" using assms by simp
  moreover have "(y + 1) * w \<le> h * w" using assms by (simp add: mult_right_mono)
  ultimately show ?thesis using assms by (simp add: algebra_simps)
qed

lemma GetGridIndexLeft_range:
  assumes "0 < width (mGridSizeLeft s)" "0 < height (mGridSizeLeft s)" "0 \<le> fst p" "0 \<le> snd p"
  shows "GetGridIndexLeft s p g = -1 \<or>
    (0 \<le> GetGridIndexLeft s p g \<and>
     GetGridIndexLeft s p g < width (mGridSizeLeft s) * height (mGridSizeLeft s))"
proof -
  let ?W = "width (mGridSizeLeft s)" and ?H = "height (mGridSizeLeft s)"
  define x where "x = (if g = 1 \<or> g = 3 then \<lfloor>fst p * of_int ?W\<rfloor>
     else if g = 2 \<or> g = 4 then \<lfloor>fst p * of_int ?W + 1 / 2\<rfloor> else 0)"
  define y where "y = (if g = 1 \<or> g = 2 then \<lfloor>snd p * of_int ?H\<rfloor>
     else if g = 3 \<or> g = 4 then \<lfloor>snd p * of_int ?H + 1 / 2\<rfloor> else 0)"
  have eq: "GetGridIndexLeft s p g = (if x \<ge> ?W \<or> y \<ge> ?H then -1 else x + y * ?W)"
    by (simp add: GetGridIndexLeft_def x_def y_def Let_def)
  have "0 \<le> fst p * of_int ?W" "0 \<le> snd p * of_int ?H" using assms by simp_all
  then have "0 \<le> x" "0 \<le> y" by (simp_all add: x_def y_def)
  then show ?thesis using cell_index_range[of x ?W y ?H] by (simp add: eq)
qed

lemma GetGridIndexRight_range:
  assumes "0 < width (mGridSizeRight s)" "0 < height (mGridSizeRight s)"
    and "0 \<le> fst p" "fst p < 1" "0 \<le> snd p" "snd p < 1"
  shows "0 \<le> GetGridIndexRight s p \<and>
     GetGridIndexRight s p < width (mGridSizeRight s) * height (mGridSizeRight s)"
proof -
  let ?W = "width (mGridSizeRight s)" and ?H = "height (mGridSizeRight s)"
  have "0 \<le> fst p * of_int ?W" "0 \<le> snd p * of_int ?H" using assms by simp_all
  then have lo: "0 \<le> \<lfloor>fst p * of_int ?W\<rfloor>" "0 \<le> \<lfloor>snd p * of_int ?H\<rfloor>" by simp_all
  have "fst p * of_int ?W < of_int ?W" "snd p * of_int ?H < of_int ?H"
    using assms by simp_all
  then have hi: "\<lfloor>fst p * of_int ?W\<rfloor> < ?W" "\<lfloor>snd p * of_int ?H\<rfloor> < ?H"
    by (simp_all add: floor_less_iff)
  show ?thesis
    using cell_index_range[OF lo(1) hi(1) lo(2) hi(2)]
    by (simp add: GetGridIndexRight_def Let_def)
qed
lemma set_update_all:
  assumes "\<forall>x \<in> set xs. P x" "P v"
  shows "\<forall>x \<in> set (xs[k := v]). P x"
  using assms set_update_subset_insert[of xs k v] by auto

lemma AssignMatchPair_total:
  assumes r: "pass_ready a" and i: "i < mNumberMatches a"
  shows "\<exists>b. AssignMatchPair g i a = Some b \<and> pass_ready b \<and> mNumberMatches b = mNumberMatches a"
proof -
  have t: "tables_ok a" and inp: "input_ok a" and v: "votes_ok a"
    and lens: "length (mNumberPointsInPerCellLeft a) = nat (mGridNumberLeft a)"
      "length (mvMatchPairs a) = mNumberMatches a"
    and prs: "\<forall>mp \<in> set (mvMatchPairs a).
        (fst mp = -1 \<or> (0 \<le> fst mp \<and> fst mp < mGridNumberLeft a)) \<and> snd mp < mGridNumberRight a"
    using r by (simp_all add: pass_ready_def)
  let ?m = "mvMatches a ! i"
  have mi: "i < length (mvMatches a)" using inp i by (simp add: input_ok_def)
  then have "?m \<in> set (mvMatches a)" by simp
  then have m: "0 \<le> fst ?m" "nat (fst ?m) < length (mvP1 a)" "0 \<le> snd ?m" "nat (snd ?m) < length (mvP2 a)"
    using inp by (simp_all add: input_ok_def)
  let ?lp = "mvP1 a ! nat (fst ?m)" and ?rp = "mvP2 a ! nat (snd ?m)"
  let ?mp = "mvMatchPairs a ! i"
  have "?lp \<in> set (mvP1 a)" "?rp \<in> set (mvP2 a)" using m by simp_all
  then have lp: "0 \<le> fst ?lp" "0 \<le> snd ?lp"
    and rp: "0 \<le> fst ?rp" "fst ?rp < 1" "0 \<le> snd ?rp" "snd ?rp < 1"
    using inp by (simp_all add: input_ok_def)
  have e1: "elem_at (mvMatches a) (int i) = Some ?m" using mi by (simp add: elem_at_def)
  have e2: "elem_at (mvP1 a) (fst ?m) = Some ?lp" using m by (simp add: elem_at_def)
  have e3: "elem_at (mvP2 a) (snd ?m) = Some ?rp" using m by (simp add: elem_at_def)
  have e4: "elem_at (mvMatchPairs a) (int i) = Some ?mp" using i lens by (simp add: elem_at_def)
  define l where "l = GetGridIndexLeft a ?lp g"
  define rg where "rg = (if g = 1 then GetGridIndexRight a ?rp else snd ?mp)"
  have dims: "0 < width (mGridSizeLeft a)" "0 < height (mGridSizeLeft a)"
    "0 < width (mGridSizeRight a)" "0 < height (mGridSizeRight a)"
    "mGridNumberLeft a = width (mGridSizeLeft a) * height (mGridSizeLeft a)"
    "mGridNumberRight a = width (mGridSizeRight a) * height (mGridSizeRight a)"
    using t by (simp_all add: tables_ok_def)
  have l_rng: "l = -1 \<or> (0 \<le> l \<and> l < mGridNumberLeft a)"
    using GetGridIndexLeft_range[OF dims(1,2) lp, of g] dims(5) by (simp add: l_def)
  have "?mp \<in> set (mvMatchPairs a)" using i lens by simp
  then have "snd ?mp < mGridNumberRight a" using prs by blast
  then have rg_rng: "rg < mGridNumberRight a"
    using GetGridIndexRight_range[OF dims(3,4) rp] dims(6) by (simp add: rg_def)
  let ?a1 = "a\<lparr>mvMatchPairs := (mvMatchPairs a)[i := (l, rg)]\<rparr>"
  have prs1: "\<forall>mp \<in> set ((mvMatchPairs a)[i := (l, rg)]).
        (fst mp = -1 \<or> (0 \<le> fst mp \<and> fst mp < mGridNumberLeft a)) \<and> snd mp < mGridNumberRight a"
    using l_rng rg_rng by (intro set_update_all[OF prs]) simp
  have same: "tables_ok ?a1 = tables_ok a" "input_ok ?a1 = input_ok a" "votes_ok ?a1 = votes_ok a"
    by (simp_all add: tables_ok_def input_ok_def votes_ok_def)
  have r1: "pass_ready ?a1"
    using r prs1 unfolding pass_ready_def same by simp
  show ?thesis
  proof (cases "l < 0 \<or> rg < 0")
    case True
    then have "AssignMatchPair g i a = Some ?a1"
      by (simp add: AssignMatchPair_def e1 e2 e3 e4 Let_def l_def[symmetric] rg_def[symmetric])
    then show ?thesis using r1 by simp
  next
    case False
    then have lr: "0 \<le> l" "l < mGridNumberLeft a" "0 \<le> rg" using l_rng by auto
    have row: "nat l < length (mMotionStatistics a)" using lr v by (simp add: votes_ok_def)
    then have "mMotionStatistics a ! nat l \<in> set (mMotionStatistics a)" by simp
    then have "length (mMotionStatistics a ! nat l) = nat (mGridNumberRight a)"
      using v by (simp add: votes_ok_def)
    then have col: "nat rg < length (mMotionStatistics a ! nat l)" using lr rg_rng by simp
    obtain ms where ms: "mat_inc (mMotionStatistics a) l rg = Some ms"
      using row col lr by (simp add: mat_inc_Some)
    have np: "elem_at (mNumberPointsInPerCellLeft a) l = Some (mNumberPointsInPerCellLeft a ! nat l)"
      using lr lens by (simp add: elem_at_def)
    let ?b = "?a1\<lparr>mMotionStatistics := ms,
        mNumberPointsInPerCellLeft :=
          (mNumberPointsInPerCellLeft a)[nat l := mNumberPointsInPerCellLeft a ! nat l + 1]\<rparr>"
    have step: "AssignMatchPair g i a = Some ?b"
      using False
      by (simp add: AssignMatchPair_def e1 e2 e3 e4 Let_def l_def[symmetric] rg_def[symmetric] ms np)
    have v1: "votes_ok ?a1" using v same by simp
    have "mat_inc (mMotionStatistics ?a1) l rg = Some ms" using ms by simp
    from votes_ok_inc[OF v1 this]
    have vb: "votes_ok ?b" by simp
    have same2: "tables_ok ?b = tables_ok a" "input_ok ?b = input_ok a"
      by (simp_all add: tables_ok_def input_ok_def)
    have "pass_ready ?b"
      using r prs1 vb unfolding pass_ready_def same2 by simp
    then show ?thesis using step by simp
  qed
qed

lemma AssignMatchPairs_total:
  assumes "pass_ready a"
  shows "\<exists>b. AssignMatchPairs a g = Some b \<and> pass_ready b \<and> mNumberMatches b = mNumberMatches a"
  unfolding AssignMatchPairs_def
proof (rule for_loop_upt_total[where I = "\<lambda>k b. pass_ready b \<and> mNumberMatches b = mNumberMatches a"])
  show "pass_ready a \<and> mNumberMatches a = mNumberMatches a" using assms by simp
next
  fix i b
  assume "i < mNumberMatches a" "pass_ready b \<and> mNumberMatches b = mNumberMatches a"
  then show "\<exists>c. AssignMatchPair g i b = Some c \<and> pass_ready c \<and> mNumberMatches c = mNumberMatches a"
    using AssignMatchPair_total[of b i g] by auto
qed
lemma elem_at_nat: "i < length xs \<Longrightarrow> elem_at xs (int i) = Some (xs ! i)"
  by (simp add: elem_at_def)

lemma elem_set_nat: "i < length xs \<Longrightarrow> elem_set xs (int i) v = Some (xs[i := v])"
  by (simp add: elem_set_def)

lemma pass_ready_cells:
  assumes "pass_ready a" "length cp = length (mCellPairs a)"
  shows "pass_ready (a\<lparr>mCellPairs := cp\<rparr>)"
proof -
  have "tables_ok (a\<lparr>mCellPairs := cp\<rparr>) = tables_ok a"
    "input_ok (a\<lparr>mCellPairs := cp\<rparr>) = input_ok a"
    "votes_ok (a\<lparr>mCellPairs := cp\<rparr>) = votes_ok a"
    by (simp_all add: tables_ok_def input_ok_def votes_ok_def)
  then show ?thesis using assms unfolding pass_ready_def by simp
qed

lemma pass_ready_mask:
  assumes "pass_ready a" "length m = length (mvbInlierMask a)"
  shows "pass_ready (a\<lparr>mvbInlierMask := m\<rparr>)"
proof -
  have "tables_ok (a\<lparr>mvbInlierMask := m\<rparr>) = tables_ok a"
    "input_ok (a\<lparr>mvbInlierMask := m\<rparr>) = input_ok a"
    "votes_ok (a\<lparr>mvbInlierMask := m\<rparr>) = votes_ok a"
    by (simp_all add: tables_ok_def input_ok_def votes_ok_def)
  then show ?thesis using assms unfolding pass_ready_def by simp
qed

lemma VerifyCellPair_total:
  assumes r: "pass_ready a" and i: "i < nat (mGridNumberLeft a)"
    and rp: "CurrentRP \<in> set kRotationPatterns"
  shows "\<exists>b. VerifyCellPair CurrentRP i a = Some b \<and> pass_ready b \<and>
     mGridNumberLeft b = mGridNumberLeft a"
proof -
  have t: "tables_ok a" and v: "votes_ok a"
    and lens: "length (mNumberPointsInPerCellLeft a) = nat (mGridNumberLeft a)"
      "length (mCellPairs a) = nat (mGridNumberLeft a)"
    using r by (simp_all add: pass_ready_def)
  let ?row = "mMotionStatistics a ! i"
  have row: "elem_at (mMotionStatistics a) (int i) = Some ?row"
    using v i by (simp add: elem_at_Some votes_ok_def)
  note vr = votes_row[OF v i]
  show ?thesis
  proof (cases "sum_list ?row = 0")
    case True
    have "elem_set (mCellPairs a) (int i) (-1) = Some ((mCellPairs a)[i := -1])"
      using i lens by (simp add: elem_set_nat)
    then have "VerifyCellPair CurrentRP i a = Some (a\<lparr>mCellPairs := (mCellPairs a)[i := -1]\<rparr>)"
      using True by (simp add: VerifyCellPair_def row)
    then show ?thesis using pass_ready_cells[OF r, of "(mCellPairs a)[i := -1]"] by simp
  next
    case False
    have cp: "elem_at (mCellPairs a) (int i) = Some (mCellPairs a ! i)"
      using i lens by (simp add: elem_at_nat)
    obtain idx where idx: "tentative_pairing a ?row (mCellPairs a ! i) = Some idx"
      "0 \<le> idx" "idx < mGridNumberRight a"
      using tentative_pairing_scan[OF vr(1) row_has_vote[OF vr(2) False], of "mCellPairs a ! i"]
      by auto
    let ?a1 = "a\<lparr>mCellPairs := (mCellPairs a)[i := idx]\<rparr>"
    have "tables_ok ?a1 = tables_ok a" by (simp add: tables_ok_def)
    then have "tables_ok ?a1" using t by simp
    moreover have "votes_shape ?a1" using v by (simp add: votes_ok_def votes_shape_def)
    moreover have "int i < mGridNumberLeft ?a1" using i by simp
    ultimately obtain score thresh numpair where
      ns: "neighbor_support ?a1 CurrentRP i idx = Some (score, thresh, numpair)"
      using neighbor_support_total[of ?a1 i idx CurrentRP] lens idx rp by auto
    have "VerifyCellPair CurrentRP i a =
       Some (if below_thresh (mAlpha a) score thresh numpair
             then a\<lparr>mCellPairs := (mCellPairs a)[i := -2]\<rparr> else ?a1)"
      using False by (simp add: VerifyCellPair_def row cp idx Let_def ns)
    then show ?thesis
      using pass_ready_cells[OF r, of "(mCellPairs a)[i := -2]"]
        pass_ready_cells[OF r, of "(mCellPairs a)[i := idx]"] by simp
  qed
qed

lemma MarkInlier_total:
  assumes r: "pass_ready a" and i: "i < mNumberMatches a"
  shows "\<exists>b. MarkInlier i a = Some b \<and> pass_ready b \<and> mNumberMatches b = mNumberMatches a"
proof -
  let ?mp = "mvMatchPairs a ! i"
  have lens: "length (mvMatchPairs a) = mNumberMatches a" "length (mvbInlierMask a) = mNumberMatches a"
    "length (mCellPairs a) = nat (mGridNumberLeft a)"
    using r by (simp_all add: pass_ready_def)
  have e: "elem_at (mvMatchPairs a) (int i) = Some ?mp" using i lens by (simp add: elem_at_nat)
  have "?mp \<in> set (mvMatchPairs a)" using i lens by simp
  then have l: "fst ?mp = -1 \<or> (0 \<le> fst ?mp \<and> fst ?mp < mGridNumberLeft a)"
    using r by (simp add: pass_ready_def)
  show ?thesis
  proof (cases "fst ?mp = -1")
    case True
    then have "MarkInlier i a = Some a" by (simp add: MarkInlier_def e)
    then show ?thesis using r by simp
  next
    case False
    then have cp: "elem_at (mCellPairs a) (fst ?mp) = Some (mCellPairs a ! nat (fst ?mp))"
      using l lens by (simp add: elem_at_def)
    have m: "elem_set (mvbInlierMask a) (int i) True = Some ((mvbInlierMask a)[i := True])"
      using i lens by (simp add: elem_set_nat)
    have "MarkInlier i a = Some (if mCellPairs a ! nat (fst ?mp) = snd ?mp
        then a\<lparr>mvbInlierMask := (mvbInlierMask a)[i := True]\<rparr> else a)"
      using False by (simp add: MarkInlier_def e cp m)
    then show ?thesis
      using r pass_ready_mask[OF r, of "(mvbInlierMask a)[i := True]"] by simp
  qed
qed

lemma GridPass_unfold:
  assumes "0 \<le> mGridNumberLeft s"
  shows "GridPass rot g s = do {
     a \<leftarrow> AssignMatchPairs (pass_reset s) g;
     v \<leftarrow> VerifyCellPairs a rot;
     for_loop [0..<mNumberMatches v] MarkInlier v
   }"
  using assms by (simp add: GridPass_def assign_def Let_def pass_reset_def)

lemma pass_ready_reset:
  assumes "pass_ready a"
  shows "pass_ready (pass_reset a)"
proof -
  have "tables_ok (pass_reset a) = tables_ok a" "input_ok (pass_reset a) = input_ok a"
    by (simp_all add: tables_ok_def input_ok_def pass_reset_def)
  moreover have "votes_ok (pass_reset a)"
    using assms by (auto simp: pass_ready_def votes_ok_def pass_reset_def)
  ultimately show ?thesis using assms by (simp add: pass_ready_def) (simp add: pass_reset_def)
qed

lemma rotation_pattern_at:
  assumes "rot \<in> {1..8}"
  shows "\<exists>rp. elem_at kRotationPatterns (rot - 1) = Some rp \<and> rp \<in> set kRotationPatterns"
proof -
  have "length kRotationPatterns = 8" by (simp add: kRotationPatterns_def)
  then have "nat (rot - 1) < length kRotationPatterns" using assms by auto
  then show ?thesis using assms by (simp add: elem_at_def)
qed

lemma GridPass_total:
  assumes r: "pass_ready (pass_reset a)" and rot: "rot \<in> {1..8}"
  shows "\<exists>b. GridPass rot g a = Some b \<and> pass_ready b"
proof -
  have "tables_ok (pass_reset a) = tables_ok a" by (simp add: tables_ok_def pass_reset_def)
  then have L: "0 \<le> mGridNumberLeft a" using r by (simp add: pass_ready_def tables_ok_def)
  obtain a1 where a1: "AssignMatchPairs (pass_reset a) g = Some a1" "pass_ready a1"
    using AssignMatchPairs_total[OF r] by auto
  obtain rp where rp: "elem_at kRotationPatterns (rot - 1) = Some rp" "rp \<in> set kRotationPatterns"
    using rotation_pattern_at[OF rot] by auto
  have "\<exists>v. for_loop [0..<nat (mGridNumberLeft a1)] (VerifyCellPair rp) a1 = Some v \<and>
      (pass_ready v \<and> mGridNumberLeft v = mGridNumberLeft a1)"
  proof (rule for_loop_upt_total[where I = "\<lambda>k v. pass_ready v \<and> mGridNumberLeft v = mGridNumberLeft a1"])
    show "pass_ready a1 \<and> mGridNumberLeft a1 = mGridNumberLeft a1" using a1 by simp
  next
    fix i v
    assume "i < nat (mGridNumberLeft a1)" "pass_ready v \<and> mGridNumberLeft v = mGridNumberLeft a1"
    then show "\<exists>w. VerifyCellPair rp i v = Some w \<and> pass_ready w \<and> mGridNumberLeft w = mGridNumberLeft a1"
      using VerifyCellPair_total[of v i rp] rp(2) by auto
  qed
  then obtain v where v: "VerifyCellPairs a1 rot = Some v" "pass_ready v"
    by (auto simp: VerifyCellPairs_def rp)
  have "\<exists>b. for_loop [0..<mNumberMatches v] MarkInlier v = Some b \<and>
      (pass_ready b \<and> mNumberMatches b = mNumberMatches v)"
  proof (rule for_loop_upt_total[where I = "\<lambda>k b. pass_ready b \<and> mNumberMatches b = mNumberMatches v"])
    show "pass_ready v \<and> mNumberMatches v = mNumberMatches v" using v by simp
  next
    fix i b
    assume "i < mNumberMatches v" "pass_ready b \<and> mNumberMatches b = mNumberMatches v"
    then show "\<exists>c. MarkInlier i b = Some c \<and> pass_ready c \<and> mNumberMatches c = mNumberMatches v"
      using MarkInlier_total[of b i] by auto
  qed
  then obtain b where "for_loop [0..<mNumberMatches v] MarkInlier v = Some b" "pass_ready b" by auto
  then show ?thesis using a1 v by (simp add: GridPass_unfold[OF L])
qed

lemma RunInit_total:
  assumes "tables_ok s" "input_ok s"
  shows "\<exists>s0. RunInit s = Some s0 \<and> pass_ready (pass_reset s0)"
proof -
  have d: "0 < mGridNumberLeft s" "0 < mGridNumberRight s"
    using assms(1) by (simp_all add: tables_ok_def)
  let ?s0 = "s\<lparr>mvbInlierMask := replicate (mNumberMatches s) False,
     mMotionStatistics := replicate (nat (mGridNumberLeft s)) (replicate (nat (mGridNumberRight s)) 0),
     mvMatchPairs := replicate (mNumberMatches s) (0, 0)\<rparr>"
  have "RunInit s = Some ?s0" using d by (simp add: RunInit_def zeros_def)
  moreover have "tables_ok (pass_reset ?s0) = tables_ok s" "input_ok (pass_reset ?s0) = input_ok s"
    by (simp_all add: tables_ok_def input_ok_def pass_reset_def)
  moreover have "votes_ok (pass_reset ?s0)" by (simp add: votes_ok_def pass_reset_def)
  ultimately show ?thesis using assms d
    by (simp add: pass_ready_def) (simp add: pass_reset_def)
qed

lemma Run_total:
  assumes "tables_ok s" "input_ok s" "rot \<in> {1..8}"
  shows "\<exists>n s'. Run s rot = Some (n, s')"
proof -
  obtain s0 where s0: "RunInit s = Some s0" "pass_ready (pass_reset s0)"
    using RunInit_total[OF assms(1,2)] by auto
  obtain s1 where s1: "GridPass rot 1 s0 = Some s1" "pass_ready s1"
    using GridPass_total[OF s0(2) assms(3)] by auto
  obtain s2 where s2: "GridPass rot 2 s1 = Some s2" "pass_ready s2"
    using GridPass_total[OF pass_ready_reset[OF s1(2)] assms(3)] by auto
  obtain s3 where s3: "GridPass rot 3 s2 = Some s3" "pass_ready s3"
    using GridPass_total[OF pass_ready_reset[OF s2(2)] assms(3)] by auto
  obtain s4 where s4: "GridPass rot 4 s3 = Some s4" "pass_ready s4"
    using GridPass_total[OF pass_ready_reset[OF s3(2)] assms(3)] by auto
  show ?thesis using s0 s1 s2 s3 s4 by (simp add: Run_def upto_1_4)
qed

section \<open>Evaluation of the example matcher\<close>

lemma example_SetScale: "SetScale (example_matcher a) 0 = Some (example_scaled a)"
  by (simp add: SetScale_def kScaleRatios_def elem_at_def example_matcher_def example_scaled_def
      trunc_int_def zeros_def Let_def)

lemma example_rotations:
  "map_option (\<lambda>(s, vb, n). (vb, n)) (for_loop [1..8] rotation_step (example_scaled 1, [], 0))
     = Some ([True, True, True], 3)"
  by code_simp

lemma example_rotations_strict:
  "map_option (\<lambda>(s, vb, n). (vb, n)) (for_loop [1..8] rotation_step (example_scaled 6, [True], 0))
     = Some ([True], 0)"
  by code_simp

lemma example_passes:
  "do { s0 \<leftarrow> RunInit (example_scaled 1); s1 \<leftarrow> for_loop [1] (GridPass 1) s0; GridPass 1 2 s1 }
     \<noteq> None"
  by code_simp

lemma example_voted_run:
  "do { s0 \<leftarrow> RunInit (example_scaled 1); AssignMatchPairs (pass_reset s0) 1 } = Some example_voted"
  by code_simp



lemma example_run: "Run (example_scaled 1) 1 \<noteq> None"
  by code_simp

section \<open>The claims on voting and verification\<close>

text \<open>
  C5: for a left cell whose row of the votes matrix (one entry per right cell) holds at
  least one vote, the scan of \<^verbatim>\<open>VerifyCellPairs\<close> returns a right cell whose count is
  the maximum of the row, and every right cell of lower index has a strictly smaller
  count: among the cells that tie for the maximum the lowest index is chosen.
\<close>

theorem tentative_pairing_argmax:
  assumes "length value = nat (mGridNumberRight s)" and "\<exists>j<length value. 0 < value ! j"
  shows "\<exists>r. tentative_pairing s value cell_pair = Some r \<and> 0 \<le> r \<and> r < mGridNumberRight s
     \<and> (\<forall>j<length value. value ! j \<le> value ! nat r)
     \<and> (\<forall>j<nat r. value ! j < value ! nat r)"
  using assms by (rule tentative_pairing_scan)

theorem tentative_pairing_argmax_witness:
  "tentative_pairing (example_scaled 1) [0, 2, 2, 1] (-1) = Some 1"
proof -
  have len: "length [0, 2, 2, 1 :: int] = nat (mGridNumberRight (example_scaled 1))"
    by (simp add: example_scaled_def)
  have vote: "\<exists>j<length [0, 2, 2, 1 :: int]. 0 < [0, 2, 2, 1 :: int] ! j"
    by (rule exI[of _ 1]) simp
  from tentative_pairing_argmax[OF len vote, of "-1"] obtain r where
    r: "tentative_pairing (example_scaled 1) [0, 2, 2, 1] (-1) = Some r" "0 \<le> r" "r < 4"
    and mx: "\<forall>j<4. [0, 2, 2, 1 :: int] ! j \<le> [0, 2, 2, 1] ! nat r"
    and lo: "\<forall>j<nat r. [0, 2, 2, 1 :: int] ! j < [0, 2, 2, 1] ! nat r"
    by (auto simp: example_scaled_def)
  have "r = 0 \<or> r = 1 \<or> r = 2 \<or> r = 3" using r(2,3) by auto
  then have "r = 1" using mx[rule_format, of 1] lo[rule_format, of 1] by auto
  then show ?thesis using r(1) by simp
qed

text \<open>
  C8: after each pass of \<^verbatim>\<open>Run\<close> over a grid type (voting, then verification), the
  vector of cell pairings has one entry per left cell, and every entry is either -1,
  or -2, or a right cell index in the range of the right grid; it is -1 exactly when
  the cell's row of the votes matrix is all zero.
\<close>

theorem cell_pairing_states:
  assumes "RunInit s = Some s0"
    and "for_loop gs (GridPass rot) s0 = Some s1"
    and "GridPass rot g s1 = Some s2"
  shows "length (mCellPairs s2) = nat (mGridNumberLeft s2) \<and>
    (\<forall>i<nat (mGridNumberLeft s2). cell_state_ok s2 i)"
proof -
  have "votes_ok s0" using RunInit_votes[OF assms(1)] by simp
  then have "votes_ok s1" using GridPasses_votes[OF assms(2)] by simp
  then show ?thesis using GridPass_cells[OF assms(3)] votes_ok_shape by blast
qed


theorem cell_pairing_states_witness:
  "\<exists>s0 s1 s2. RunInit (example_scaled 1) = Some s0 \<and> for_loop [1] (GridPass 1) s0 = Some s1
     \<and> GridPass 1 2 s1 = Some s2 \<and> length (mCellPairs s2) = nat (mGridNumberLeft s2)
     \<and> (\<forall>i<nat (mGridNumberLeft s2). cell_state_ok s2 i)"
proof -
  obtain s0 s1 s2 where h: "RunInit (example_scaled 1) = Some s0"
    "for_loop [1] (GridPass 1) s0 = Some s1" "GridPass 1 2 s1 = Some s2"
    using example_passes by (auto split: bind_splits)
  show ?thesis using h cell_pairing_states[OF h] by blast
qed





text \<open>
  C4: a correspondence is marked in the mask returned by \<^verbatim>\<open>Run\<close> exactly when, under
  at least one of the 4 grid types, the pairing of its left cell after that pass has
  survived and is its own right cell. Stated for runs that return, with no negative
  coordinate among the right points.
\<close>

theorem run_mask_or_over_offsets:
  assumes "Run s rot = Some (cnt, s')" "right_ok s" "i < mNumberMatches s"
  shows "mvbInlierMask s' ! i \<longleftrightarrow>
    (\<exists>g \<in> {1, 2, 3, 4}. \<exists>sg. after_grid_type s rot g = Some sg \<and> marked_under s sg i g)"
proof -
  from assms(1) obtain s0 s1 s2 s3 where ch: "RunInit s = Some s0" "GridPass rot 1 s0 = Some s1"
    "GridPass rot 2 s1 = Some s2" "GridPass rot 3 s2 = Some s3" "GridPass rot 4 s3 = Some s'"
    by (rule Run_chain)
  note ag = after_grid_type_chain[OF ch]
  note p1 = pass_first[OF ch(1,2)]
  note p2 = pass_next[OF conjunct1[OF p1] ch(3)]
  note p3 = pass_next[OF conjunct1[OF p2] ch(4)]
  note p4 = pass_next[OF conjunct1[OF p3] ch(5)]
  have m: "mvbInlierMask s' ! i =
     (marked_code s1 i \<or> marked_code s2 i \<or> marked_code s3 i \<or> marked_code s' i)"
    using p1 p2 p3 p4 assms(3) by simp
  have u: "marked_code s1 i = marked_under s s1 i 1" "marked_code s2 i = marked_under s s2 i 2"
    "marked_code s3 i = marked_under s s3 i 3" "marked_code s' i = marked_under s s' i 4"
    using p1 p2 p3 p4 marked_code_under[OF _ assms(2,3)] by simp_all
  show ?thesis unfolding m u using ag by auto
qed

theorem run_mask_or_over_offsets_witness:
  "\<exists>cnt s'. Run (example_scaled 1) 1 = Some (cnt, s') \<and> right_ok (example_scaled 1)
     \<and> (mvbInlierMask s' ! 2 \<longleftrightarrow>
       (\<exists>g \<in> {1, 2, 3, 4}. \<exists>sg. after_grid_type (example_scaled 1) 1 g = Some sg
          \<and> marked_under (example_scaled 1) sg 2 g))"
proof -
  obtain cnt s' where r: "Run (example_scaled 1) 1 = Some (cnt, s')"
    using example_run by auto
  have ok: "right_ok (example_scaled 1)"
    by (simp add: right_ok_def example_scaled_def example_matcher_def)
  have i: "2 < mNumberMatches (example_scaled 1)"
    by (simp add: example_scaled_def example_matcher_def)
  show ?thesis using r ok run_mask_or_over_offsets[OF r ok i] by blast
qed

section \<open>The search over rotations and scales: lemmas\<close>

lemma improves_refl: "improves a a"
  by (simp add: improves_def)

lemma improves_trans: "improves a b \<Longrightarrow> improves b c \<Longrightarrow> improves a c"
  by (auto simp: improves_def)

lemma keep_best_improves: "improves (s, vb, mx) (keep_best r vb mx)"
  by (cases r) (simp add: keep_best_def improves_def)

lemma keep_best_ge: "fst r \<le> snd (snd (keep_best r vb mx))"
  by (cases r) (simp add: keep_best_def)

lemma for_loop_improves:
  assumes "for_loop xs step a = Some b"
    and "\<And>i x y. i \<in> set xs \<Longrightarrow> step i x = Some y \<Longrightarrow> improves x y"
  shows "improves a b"
  using for_loop_invariant[where P = "improves a", OF assms(1) improves_refl]
    assms(2) improves_trans by blast

lemma rotation_step_improves: "rotation_step r a = Some b \<Longrightarrow> improves a b"
  by (cases a) (auto simp: rotation_step_def keep_best_improves split: bind_splits)

lemma scale_step_improves: "scale_step k a = Some b \<Longrightarrow> improves a b"
proof (cases a)
  case (fields s vb mx)
  assume "scale_step k a = Some b"
  then obtain s1 r where "b = keep_best r vb mx"
    using fields by (auto simp: scale_step_def split: bind_splits)
  then show ?thesis using fields keep_best_improves[of s vb mx r] by (simp add: improves_def)
qed

lemma rotation_loop_improves: "for_loop rs rotation_step a = Some b \<Longrightarrow> improves a b"
  using for_loop_improves rotation_step_improves by blast

lemma scale_rotation_step_improves: "scale_rotation_step k a = Some b \<Longrightarrow> improves a b"
proof (cases a)
  case (fields s vb mx)
  assume "scale_rotation_step k a = Some b"
  then obtain s1 where "for_loop [1..8] rotation_step (s1, vb, mx) = Some b"
    using fields by (auto simp: scale_rotation_step_def split: bind_splits)
  then have "improves (s1, vb, mx) b" by (rule rotation_loop_improves)
  then show ?thesis using fields by (simp add: improves_def)
qed

lemma upto_1_8: "[1..8] = 1 # [2..8]"
  by (simp add: upto_rec1)

lemma upto_0_4: "[0..4] = 0 # [1..4]"
  by (simp add: upto_rec1)

text \<open>The first hypothesis of each search is the one of the plain filter.\<close>

lemma rotation_loop_first:
  assumes "for_loop [1..8] rotation_step (s, vb, mx) = Some b"
  shows "\<exists>r. Run s 1 = Some r \<and> fst r \<le> snd (snd b)"
proof -
  from assms obtain r where r: "Run s 1 = Some r"
    and rest: "for_loop [2..8] rotation_step (keep_best r vb mx) = Some b"
    unfolding upto_1_8 by (auto simp: rotation_step_def split: bind_splits)
  have "improves (keep_best r vb mx) b" using rest by (rule rotation_loop_improves)
  then show ?thesis using r keep_best_ge[of r vb mx] by (auto simp: improves_def)
qed

text \<open>A returned count of 0 leaves the caller's vector as it was.\<close>

lemma zero_count_keeps_mask:
  assumes "WithScale \<or> WithRotation"
    and "GetInlierMask s vbInliers WithScale WithRotation = Some (n, vb, s')"
  shows "0 \<le> n \<and> (n = 0 \<longrightarrow> vb = vbInliers)"
proof -
  have "\<exists>a b. improves (a, vbInliers, 0) b \<and> n = snd (snd b) \<and> vb = fst (snd b)"
  proof -
    consider (both) "WithRotation" "WithScale"
      | (rot) "WithRotation" "\<not> WithScale" | (scale) "\<not> WithRotation" "WithScale"
      using assms(1) by blast
    then show ?thesis
    proof cases
      case both
      then obtain b where b: "for_loop [0..4] scale_rotation_step (s, vbInliers, 0) = Some b"
        and n: "n = snd (snd b)" "vb = fst (snd b)"
        using assms by (auto simp: GetInlierMask_def split: bind_splits)
      have "improves (s, vbInliers, 0) b"
        using for_loop_improves[OF b] scale_rotation_step_improves by blast
      then show ?thesis using n by blast
    next
      case rot
      then obtain s1 b where b: "for_loop [1..8] rotation_step (s1, vbInliers, 0) = Some b"
        and n: "n = snd (snd b)" "vb = fst (snd b)"
        using assms by (auto simp: GetInlierMask_def split: bind_splits)
      have "improves (s1, vbInliers, 0) b" using b by (rule rotation_loop_improves)
      then show ?thesis using n by blast
    next
      case scale
      then obtain b where b: "for_loop [0..4] scale_step (s, vbInliers, 0) = Some b"
        and n: "n = snd (snd b)" "vb = fst (snd b)"
        using assms by (auto simp: GetInlierMask_def split: bind_splits)
      have "improves (s, vbInliers, 0) b"
        using for_loop_improves[OF b] scale_step_improves by blast
      then show ?thesis using n by blast
    qed
  qed
  then show ?thesis by (auto simp: improves_def)
qed

text \<open>
  \<^verbatim>\<open>Run\<close> reads none of the members it writes before writing them, so its result
  depends on the configuration only; \<^verbatim>\<open>SetScale\<close> depends on the left grid only.
\<close>

lemma same_config_eq:
  assumes "same_config s t"
  shows "t = s\<lparr>mvbInlierMask := mvbInlierMask t, mMotionStatistics := mMotionStatistics t,
     mvMatchPairs := mvMatchPairs t, mCellPairs := mCellPairs t,
     mNumberPointsInPerCellLeft := mNumberPointsInPerCellLeft t\<rparr>"
  using assms by (cases s, cases t) (simp add: same_config_def)

lemma GridPass_scratch:
  "GridPass rot g (s\<lparr>mCellPairs := d, mNumberPointsInPerCellLeft := e\<rparr>) = GridPass rot g s"
  by (simp add: GridPass_def Let_def)

lemma RunInit_scratch:
  "RunInit (s\<lparr>mvbInlierMask := a, mMotionStatistics := b, mvMatchPairs := c, mCellPairs := d,
      mNumberPointsInPerCellLeft := e\<rparr>)
   = map_option (\<lambda>x. x\<lparr>mCellPairs := d, mNumberPointsInPerCellLeft := e\<rparr>) (RunInit s)"
  by (cases "zeros (mGridNumberLeft s) (mGridNumberRight s)") (simp_all add: RunInit_def)

lemma upto_1_4_Cons: "[1..4] = 1 # [2..4]"
  by (simp add: upto_rec1)

lemma Run_scratch:
  "Run (s\<lparr>mvbInlierMask := a, mMotionStatistics := b, mvMatchPairs := c, mCellPairs := d,
      mNumberPointsInPerCellLeft := e\<rparr>) rot = Run s rot"
  unfolding Run_def RunInit_scratch upto_1_4_Cons
  by (cases "RunInit s") (simp_all add: GridPass_scratch)

lemma Run_config:
  assumes "same_config s t"
  shows "Run t rot = Run s rot"
  by (subst same_config_eq[OF assms]) (rule Run_scratch)

lemma Run_frame:
  assumes "Run s rot = Some (n, s')"
  shows "same_config s s'"
proof -
  from assms obtain s0 s1 s2 s3 where ch: "RunInit s = Some s0" "GridPass rot 1 s0 = Some s1"
    "GridPass rot 2 s1 = Some s2" "GridPass rot 3 s2 = Some s3" "GridPass rot 4 s3 = Some s'"
    by (rule Run_chain)
  have v0: "votes_ok s0" and c0: "same_config s s0" using RunInit_votes[OF ch(1)] by simp_all
  note g1 = GridPass_cells[OF ch(2) votes_ok_shape[OF v0]]
  note g2 = GridPass_cells[OF ch(3) votes_ok_shape] 
  note g3 = GridPass_cells[OF ch(4) votes_ok_shape]
  note g4 = GridPass_cells[OF ch(5) votes_ok_shape]
  have "same_config s0 s1" "votes_ok s1" using g1 by simp_all
  moreover from this have "same_config s1 s2" "votes_ok s2" using g2 by simp_all
  moreover from this have "same_config s2 s3" "votes_ok s3" using g3 by simp_all
  moreover from this have "same_config s3 s'" using g4 by simp_all
  ultimately show ?thesis using c0 same_config_trans by blast
qed

lemma SetScale_input:
  assumes "same_input s a" "SetScale s k = Some s1"
  shows "\<exists>a1. SetScale a k = Some a1 \<and> same_config s1 a1 \<and> same_input s a1"
proof -
  from assms(2) obtain ratio neighbor where ratio: "elem_at kScaleRatios k = Some ratio"
    and z: "zeros (trunc_int (of_int (width (mGridSizeLeft s)) * ratio) *
                   trunc_int (of_int (height (mGridSizeLeft s)) * ratio)) 9 = Some neighbor"
    and s1: "s1 = s\<lparr>mGridSizeRight := \<lparr>width = trunc_int (of_int (width (mGridSizeLeft s)) * ratio),
               height = trunc_int (of_int (height (mGridSizeLeft s)) * ratio)\<rparr>,
          mGridNumberRight := trunc_int (of_int (width (mGridSizeLeft s)) * ratio) *
                   trunc_int (of_int (height (mGridSizeLeft s)) * ratio),
          mGridNeighborRight := InitializeNeighbors neighbor
             \<lparr>width = trunc_int (of_int (width (mGridSizeLeft s)) * ratio),
               height = trunc_int (of_int (height (mGridSizeLeft s)) * ratio)\<rparr>\<rparr>"
    by (auto simp: SetScale_def Let_def bind_eq_Some_conv)
  have g: "mGridSizeLeft a = mGridSizeLeft s" using assms(1) by (simp add: same_input_def)
  let ?a1 = "a\<lparr>mGridSizeRight := mGridSizeRight s1, mGridNumberRight := mGridNumberRight s1,
     mGridNeighborRight := mGridNeighborRight s1\<rparr>"
  have "SetScale a k = Some ?a1"
    using ratio z by (simp add: SetScale_def Let_def g s1)
  moreover have "same_config s1 ?a1" "same_input s ?a1"
    using assms(1) by (simp_all add: same_config_def same_input_def s1)
  ultimately show ?thesis by blast
qed

lemma same_input_refl [simp]: "same_input s s"
  by (simp add: same_input_def)

lemma same_config_input: "same_input s a \<Longrightarrow> same_config a b \<Longrightarrow> same_input s b"
  by (simp add: same_input_def same_config_def)

text \<open>A run of the search on a later state counts what the hypothesis counts.\<close>

lemma hypothesis_run:
  assumes "hypothesis_count s k r = Some c" "same_input s a" "SetScale a k = Some a1"
    and "same_config a1 b" "Run b r = Some (n, b')"
  shows "n = c \<and> same_config a1 b'"
proof -
  from assms(1) obtain s1 s1' where s1: "SetScale s k = Some s1" and run: "Run s1 r = Some (c, s1')"
    by (auto simp: hypothesis_count_def bind_eq_Some_conv)
  from SetScale_input[OF assms(2) s1] assms(3) have "same_config s1 a1" by auto
  then have "same_config s1 b" using assms(4) same_config_trans by blast
  then have "Run b r = Run s1 r" by (rule Run_config)
  then have "n = c" using run assms(5) by simp
  moreover have "same_config a1 b'" using Run_frame[OF assms(5)] assms(4) same_config_trans by blast
  ultimately show ?thesis by simp
qed
lemma hypothesis_SetScale:
  assumes "hypothesis_count s k r = Some c" "same_input s a" "SetScale a k = Some a1"
  shows "same_input s a1"
proof -
  from assms(1) obtain s1 where "SetScale s k = Some s1"
    by (auto simp: hypothesis_count_def bind_eq_Some_conv)
  from SetScale_input[OF assms(2) this] assms(3) show ?thesis by auto
qed

lemma rotation_loop_zero:
  assumes z: "\<forall>r \<in> set rs. hypothesis_count s k r = Some 0"
    and a: "same_input s a" "SetScale a k = Some a1" and b: "same_config a1 b"
    and loop: "for_loop rs rotation_step (b, vb, 0) = Some res"
  shows "\<exists>b'. res = (b', vb, 0) \<and> same_config a1 b'"
  using loop
proof (rule for_loop_invariant)
  show "\<exists>b'. (b, vb, 0) = (b', vb, 0) \<and> same_config a1 b'" using b by simp
next
  fix r x y
  assume r: "r \<in> set rs" and x: "\<exists>b'. x = (b', vb, 0) \<and> same_config a1 b'"
    and step: "rotation_step r x = Some y"
  from x obtain b1 where x_eq: "x = (b1, vb, 0)" and b1: "same_config a1 b1" by auto
  from step obtain n b2 where run: "Run b1 r = Some (n, b2)" and y: "y = keep_best (n, b2) vb 0"
    by (auto simp: rotation_step_def x_eq bind_eq_Some_conv)
  have "n = 0 \<and> same_config a1 b2"
    using hypothesis_run[OF _ a b1 run] z r by blast
  then show "\<exists>b'. y = (b', vb, 0) \<and> same_config a1 b'"
    by (simp add: y keep_best_def)
qed

lemma scale_rotation_loop_zero:
  assumes z: "\<forall>k \<in> set ks. \<forall>r \<in> set [1..8]. hypothesis_count s k r = Some 0"
    and a: "same_input s a"
    and loop: "for_loop ks scale_rotation_step (a, vb, 0) = Some res"
  shows "\<exists>a'. res = (a', vb, 0) \<and> same_input s a'"
  using loop
proof (rule for_loop_invariant)
  show "\<exists>a'. (a, vb, 0) = (a', vb, 0) \<and> same_input s a'" using a by simp
next
  fix k x y
  assume k: "k \<in> set ks" and x: "\<exists>a'. x = (a', vb, 0) \<and> same_input s a'"
    and step: "scale_rotation_step k x = Some y"
  from x obtain a0 where x_eq: "x = (a0, vb, 0)" and a0: "same_input s a0" by auto
  from step obtain a1 where a1: "SetScale a0 k = Some a1"
    and inner: "for_loop [1..8] rotation_step (a1, vb, 0) = Some y"
    by (auto simp: scale_rotation_step_def x_eq bind_eq_Some_conv)
  have zk: "\<forall>r \<in> set [1..8]. hypothesis_count s k r = Some 0" using z k by blast
  from rotation_loop_zero[OF zk a0 a1 _ inner] obtain b' where
    y: "y = (b', vb, 0)" and b': "same_config a1 b'" by auto
  have "hypothesis_count s k 1 = Some 0" using zk by simp
  then have "same_input s a1" using hypothesis_SetScale a0 a1 by blast
  then show "\<exists>a'. y = (a', vb, 0) \<and> same_input s a'"
    using y b' same_config_input by blast
qed

lemma scale_loop_zero:
  assumes z: "\<forall>k \<in> set ks. hypothesis_count s k 1 = Some 0"
    and a: "same_input s a"
    and loop: "for_loop ks scale_step (a, vb, 0) = Some res"
  shows "\<exists>a'. res = (a', vb, 0) \<and> same_input s a'"
  using loop
proof (rule for_loop_invariant)
  show "\<exists>a'. (a, vb, 0) = (a', vb, 0) \<and> same_input s a'" using a by simp
next
  fix k x y
  assume k: "k \<in> set ks" and x: "\<exists>a'. x = (a', vb, 0) \<and> same_input s a'"
    and step: "scale_step k x = Some y"
  from x obtain a0 where x_eq: "x = (a0, vb, 0)" and a0: "same_input s a0" by auto
  from step obtain a1 n b' where a1: "SetScale a0 k = Some a1" and run: "Run a1 1 = Some (n, b')"
    and y: "y = keep_best (n, b') vb 0"
    by (auto simp: scale_step_def x_eq bind_eq_Some_conv)
  have h: "hypothesis_count s k 1 = Some 0" using z k by blast
  have "n = 0 \<and> same_config a1 b'"
    using hypothesis_run[OF h a0 a1 _ run] by simp
  moreover have "same_input s a1" using hypothesis_SetScale[OF h a0 a1] .
  ultimately show "\<exists>a'. y = (a', vb, 0) \<and> same_input s a'"
    using same_config_input by (auto simp: y keep_best_def)
qed

section \<open>The search on well-formed input returns\<close>

lemma for_loop_total:
  assumes "P s" and "\<And>i a. i \<in> set xs \<Longrightarrow> P a \<Longrightarrow> \<exists>b. body i a = Some b \<and> P b"
  shows "\<exists>s'. for_loop xs body s = Some s' \<and> P s'"
  using assms
proof (induction xs arbitrary: s)
  case Nil
  then show ?case by simp
next
  case (Cons x xs)
  obtain s1 where s1: "body x s = Some s1" "P s1" using Cons.prems(2)[of x s] Cons.prems(1) by auto
  have "\<exists>s'. for_loop xs body s1 = Some s' \<and> P s'"
    using Cons.IH[OF s1(2)] Cons.prems(2) by auto
  then show ?case using s1 by simp
qed

lemma scale_ratio_half:
  assumes "r \<in> set kScaleRatios"
  shows "1 / 2 \<le> r"
proof -
  have "sqrt 2 \<le> 2" using real_sqrt_le_iff[of 2 4] by simp
  then have a: "1 / 2 \<le> 1 / sqrt 2" by (simp add: field_simps)
  have "1 \<le> sqrt 2" by simp
  then have b: "1 / 2 \<le> sqrt 2" by linarith
  from assms have "r = 1 \<or> r = 1 / 2 \<or> r = 1 / sqrt 2 \<or> r = sqrt 2 \<or> r = 2"
    by (simp add: kScaleRatios_def)
  then show ?thesis using a b by (elim disjE) simp_all
qed

lemma scaled_side_positive:
  assumes "r \<in> set kScaleRatios" "2 \<le> (w::int)"
  shows "0 < trunc_int (of_int w * r)"
proof -
  have "1 / 2 \<le> r" using assms(1) by (rule scale_ratio_half)
  then have "2 * (1 / 2) \<le> real_of_int w * r"
    using assms(2) by (intro mult_mono) simp_all
  then have "1 \<le> real_of_int w * r" by simp
  then have "1 \<le> \<lfloor>real_of_int w * r\<rfloor>" by (simp add: le_floor_iff)
  then show ?thesis using \<open>1 \<le> real_of_int w * r\<close> by (simp add: trunc_int_def)
qed

lemma SetScale_total:
  assumes l: "left_ok s" and d: "2 \<le> width (mGridSizeLeft s)" "2 \<le> height (mGridSizeLeft s)"
    and k: "k \<in> {0..4}"
  shows "\<exists>s1. SetScale s k = Some s1 \<and> tables_ok s1 \<and> same_input s s1"
proof -
  have "length kScaleRatios = 5" by (simp add: kScaleRatios_def)
  then have kl: "nat k < length kScaleRatios" using k by auto
  let ?r = "kScaleRatios ! nat k"
  have e: "elem_at kScaleRatios k = Some ?r" using kl k by (simp add: elem_at_def)
  have "?r \<in> set kScaleRatios" using kl by simp
  then have w: "0 < trunc_int (of_int (width (mGridSizeLeft s)) * ?r)"
    and h: "0 < trunc_int (of_int (height (mGridSizeLeft s)) * ?r)"
    using d scaled_side_positive by simp_all
  let ?gs = "\<lparr>width = trunc_int (of_int (width (mGridSizeLeft s)) * ?r),
              height = trunc_int (of_int (height (mGridSizeLeft s)) * ?r)\<rparr>"
  let ?n = "width ?gs * height ?gs"
  have n: "0 < ?n" using w h by simp
  then have z: "zeros ?n 9 = Some (replicate (nat ?n) (replicate 9 0))"
    by (simp add: zeros_def)
  let ?s1 = "s\<lparr>mGridSizeRight := ?gs, mGridNumberRight := ?n,
     mGridNeighborRight := InitializeNeighbors (replicate (nat ?n) (replicate 9 0)) ?gs\<rparr>"
  have "SetScale s k = Some ?s1"
    unfolding SetScale_def e using z by (simp add: Let_def)
  moreover have "tables_ok ?s1"
    using l d w h z by (auto simp: tables_ok_def left_ok_def)
  moreover have "same_input s ?s1" by (simp add: same_input_def)
  ultimately show ?thesis by blast
qed

lemma same_input_ok:
  assumes "same_input s a"
  shows "input_ok a = input_ok s" "left_ok a = left_ok s"
  using assms by (simp_all add: same_input_def input_ok_def left_ok_def)

lemma same_config_ok:
  assumes "same_config s a"
  shows "input_ok a = input_ok s" "tables_ok a = tables_ok s"
  using assms by (simp_all add: same_config_def input_ok_def tables_ok_def)

lemma same_input_trans: "same_input s a \<Longrightarrow> same_input a b \<Longrightarrow> same_input s b"
  by (simp add: same_input_def)

lemma same_input_sizes:
  "same_input s a \<Longrightarrow> mGridSizeLeft a = mGridSizeLeft s"
  by (simp add: same_input_def)

lemma rotation_step_total:
  assumes "tables_ok s1" "input_ok s1" "same_config s1 (fst x)" "r \<in> {1..8}"
  shows "\<exists>y. rotation_step r x = Some y \<and> same_config s1 (fst y)"
proof -
  obtain b vb mx where x: "x = (b, vb, mx)" by (cases x)
  have b: "same_config s1 b" using assms(3) x by simp
  then have "tables_ok b" "input_ok b" using assms(1,2) same_config_ok by simp_all
  then obtain n b' where run: "Run b r = Some (n, b')" using Run_total assms(4) by blast
  have "same_config s1 b'" using Run_frame[OF run] b same_config_trans by blast
  then have "same_config s1 (fst (keep_best (n, b') vb mx))" by (simp add: keep_best_def)
  then show ?thesis using run by (simp add: rotation_step_def x)
qed

lemma rotation_loop_total:
  assumes "tables_ok s1" "input_ok s1" "set rs \<subseteq> {1..8}"
  shows "\<exists>y. for_loop rs rotation_step (s1, vb, mx) = Some y \<and> same_config s1 (fst y)"
proof (rule for_loop_total)
  show "same_config s1 (fst (s1, vb, mx))" by simp
next
  fix i and a :: "GMS_Matcher \<times> bool list \<times> int"
  assume "i \<in> set rs" "same_config s1 (fst a)"
  then show "\<exists>b. rotation_step i a = Some b \<and> same_config s1 (fst b)"
    using rotation_step_total[OF assms(1,2)] assms(3) by blast
qed

text \<open>
  On a left grid with sides of at least 2, all 5 scaled right grids have positive sides,
  and \<^verbatim>\<open>GetInlierMask\<close> returns on well-formed input whatever the two flags.
\<close>

lemma GetInlierMask_total:
  assumes l: "left_ok s" and i: "input_ok s"
    and d: "2 \<le> width (mGridSizeLeft s)" "2 \<le> height (mGridSizeLeft s)"
  shows "\<exists>n vb s'. GetInlierMask s vbInliers WithScale WithRotation = Some (n, vb, s')"
proof -
  have scaled: "\<exists>a1. SetScale a k = Some a1 \<and> tables_ok a1 \<and> input_ok a1 \<and> same_input s a1"
    if "same_input s a" "k \<in> {0..4}" for a k
  proof -
    have "left_ok a" "2 \<le> width (mGridSizeLeft a)" "2 \<le> height (mGridSizeLeft a)"
      using that(1) l d same_input_ok same_input_sizes by simp_all
    from SetScale_total[OF this that(2)] obtain a1 where
      a1: "SetScale a k = Some a1" "tables_ok a1" "same_input a a1" by auto
    have "same_input s a1" using that(1) a1(3) same_input_trans by blast
    then show ?thesis using a1 i same_input_ok by auto
  qed
  have sets: "set [1..8] \<subseteq> {1..8}" "set [0..4] \<subseteq> {0..4}" by auto
  consider (none) "\<not> WithScale" "\<not> WithRotation" | (both) "WithRotation" "WithScale"
    | (rot) "WithRotation" "\<not> WithScale" | (scale) "\<not> WithRotation" "WithScale" by blast
  then show ?thesis
  proof cases
    case none
    obtain s1 where s1: "SetScale s 0 = Some s1" "tables_ok s1" "input_ok s1"
      using scaled[of s 0] by auto
    obtain n s' where "Run s1 1 = Some (n, s')" using Run_total[OF s1(2,3), of 1] by auto
    then show ?thesis using none s1 by (simp add: GetInlierMask_def)
  next
    case rot
    obtain s1 where s1: "SetScale s 0 = Some s1" "tables_ok s1" "input_ok s1"
      using scaled[of s 0] by auto
    obtain y where "for_loop [1..8] rotation_step (s1, vbInliers, 0) = Some y"
      using rotation_loop_total[OF s1(2,3) sets(1)] by blast
    then show ?thesis using rot s1 by (simp add: GetInlierMask_def split_beta)
  next
    case both
    have "\<exists>y. for_loop [0..4] scale_rotation_step (s, vbInliers, 0) = Some y \<and> search_state s y"
    proof (rule for_loop_total)
      show "search_state s (s, vbInliers, 0)" by (simp add: search_state_def)
    next
      fix k and x :: "GMS_Matcher \<times> bool list \<times> int"
      assume k: "k \<in> set [0..4]" and x: "search_state s x"
      obtain a vb mx where x_eq: "x = (a, vb, mx)" by (cases x)
      obtain a1 where a1: "SetScale a k = Some a1" "tables_ok a1" "input_ok a1" "same_input s a1"
        using scaled[of a k] x k by (auto simp: search_state_def x_eq)
      obtain y where y: "for_loop [1..8] rotation_step (a1, vb, mx) = Some y" "same_config a1 (fst y)"
        using rotation_loop_total[OF a1(2,3) sets(1)] by blast
      have "search_state s y" using a1(4) y(2) same_config_input by (simp add: search_state_def)
      then show "\<exists>y. scale_rotation_step k x = Some y \<and> search_state s y"
        using a1 y by (simp add: scale_rotation_step_def x_eq)
    qed
    then show ?thesis using both by (auto simp: GetInlierMask_def split_beta)
  next
    case scale
    have "\<exists>y. for_loop [0..4] scale_step (s, vbInliers, 0) = Some y \<and> search_state s y"
    proof (rule for_loop_total)
      show "search_state s (s, vbInliers, 0)" by (simp add: search_state_def)
    next
      fix k and x :: "GMS_Matcher \<times> bool list \<times> int"
      assume k: "k \<in> set [0..4]" and x: "search_state s x"
      obtain a vb mx where x_eq: "x = (a, vb, mx)" by (cases x)
      obtain a1 where a1: "SetScale a k = Some a1" "tables_ok a1" "input_ok a1" "same_input s a1"
        using scaled[of a k] x k by (auto simp: search_state_def x_eq)
      obtain n b where run: "Run a1 1 = Some (n, b)" using Run_total[OF a1(2,3), of 1] by auto
      have "same_input s b" using Run_frame[OF run] a1(4) same_config_input by blast
      then have "search_state s (keep_best (n, b) vb mx)"
        by (simp add: search_state_def keep_best_def)
      then show "\<exists>y. scale_step k x = Some y \<and> search_state s y"
        using a1 run by (simp add: scale_step_def x_eq)
    qed
    then show ?thesis using scale by (auto simp: GetInlierMask_def split_beta)
  qed
qed

text \<open>The constructor builds the left grid and its neighbour table.\<close>

lemma GMS_Matcher_ctor_left:
  assumes "GMS_Matcher_ctor vkp1 size1 vkp2 size2 vDMatches grid_size alpha = Some s"
  shows "left_ok s \<and> mGridSizeLeft s = grid_size \<and> mNumberMatches s = length (mvMatches s)"
  using assms
  by (auto simp: GMS_Matcher_ctor_def left_ok_def ConvertMatches_def bind_eq_Some_conv)

section \<open>The claims on the search\<close>

text \<open>The 5 scales of the example matcher, whose left grid has side 2, and its counts
  with the support factor 6.\<close>

lemma floor_sqrt_half: "\<lfloor>2 / sqrt 2\<rfloor> = 1"
proof -
  have e: "2 / sqrt 2 = sqrt 2"
    using real_sqrt_mult_self[of 2] by (simp add: field_simps)
  have "1 \<le> sqrt 2" by simp
  moreover have "sqrt 2 < 2" using real_sqrt_less_iff[of 2 4] by simp
  ultimately show ?thesis unfolding e by (simp add: floor_unique)
qed

lemma floor_sqrt_twice: "\<lfloor>2 * sqrt 2\<rfloor> = 2"
proof -
  have e: "2 * sqrt 2 = sqrt 8" using real_sqrt_mult[of 4 2] by simp
  have "sqrt 4 \<le> sqrt 8" by (subst real_sqrt_le_iff) simp
  then have lo: "2 \<le> sqrt 8" by simp
  have "sqrt 8 < sqrt 9" by (subst real_sqrt_less_iff) simp
  then have hi: "sqrt 8 < 3" by simp
  show ?thesis unfolding e using lo hi by (simp add: floor_unique)
qed

lemma example_SetScale_all:
  "SetScale (example_matcher a) 0 = Some (example_right a 2)"
  "SetScale (example_matcher a) 1 = Some (example_right a 1)"
  "SetScale (example_matcher a) 2 = Some (example_right a 1)"
  "SetScale (example_matcher a) 3 = Some (example_right a 2)"
  "SetScale (example_matcher a) 4 = Some (example_right a 4)"
  by (simp_all add: SetScale_def kScaleRatios_def elem_at_def example_matcher_def example_right_def
      trunc_int_def zeros_def Let_def floor_sqrt_half floor_sqrt_twice)

lemma example_counts:
  "\<forall>r \<in> set [1..8]. map_option fst (Run (example_right 6 1) r) = Some 0"
  "\<forall>r \<in> set [1..8]. map_option fst (Run (example_right 6 2) r) = Some 0"
  "\<forall>r \<in> set [1..8]. map_option fst (Run (example_right 6 4) r) = Some 0"
  by code_simp+

lemma example_wellformed: "left_ok (example_matcher a)" "input_ok (example_matcher a)"
  by (auto simp: left_ok_def input_ok_def example_matcher_def zeros_def)

lemma example_zero_hypotheses:
  assumes "Scale \<in> set [0..4]" "RotationType \<in> set [1..8]"
  shows "hypothesis_count (example_matcher 6) Scale RotationType = Some 0"
proof -
  have "Scale = 0 \<or> Scale = 1 \<or> Scale = 2 \<or> Scale = 3 \<or> Scale = 4" using assms(1) by auto
  then obtain w where w: "SetScale (example_matcher 6) Scale = Some (example_right 6 w)"
    and "w = 1 \<or> w = 2 \<or> w = 4"
    using example_SetScale_all[of 6] by auto
  then have "map_option fst (Run (example_right 6 w) RotationType) = Some 0"
    using example_counts assms(2) by blast
  then show ?thesis by (auto simp: hypothesis_count_def w)
qed

text \<open>
  C6: whenever \<^verbatim>\<open>GetInlierMask\<close> returns with the rotation search, the scale search
  or both enabled, the same call with both disabled returns too, and its inlier count
  is not larger.
\<close>

theorem search_keeps_plain_count:
  assumes "GetInlierMask s vbInliers WithScale WithRotation = Some (n, vb, s')"
  shows "\<exists>n0 vb0 s0. GetInlierMask s vbInliers False False = Some (n0, vb0, s0) \<and> n0 \<le> n"
proof -
  have plain: "\<exists>n0 vb0 s0. GetInlierMask s vbInliers False False = Some (n0, vb0, s0) \<and> n0 \<le> n"
    if "SetScale s 0 = Some s1" "Run s1 1 = Some r" "fst r \<le> n" for s1 r
    using that by (cases r) (simp add: GetInlierMask_def)
  consider (none) "\<not> WithScale" "\<not> WithRotation" | (both) "WithRotation" "WithScale"
    | (rot) "WithRotation" "\<not> WithScale" | (scale) "\<not> WithRotation" "WithScale" by blast
  then show ?thesis
  proof cases
    case none
    then show ?thesis using assms by auto
  next
    case both
    then obtain b where b: "for_loop [0..4] scale_rotation_step (s, vbInliers, 0) = Some b"
      and n: "n = snd (snd b)"
      using assms by (auto simp: GetInlierMask_def split: bind_splits)
    from b obtain s1 b1 where s1: "SetScale s 0 = Some s1"
      and b1: "for_loop [1..8] rotation_step (s1, vbInliers, 0) = Some b1"
      and rest: "for_loop [1..4] scale_rotation_step b1 = Some b"
      unfolding upto_0_4 by (auto simp: scale_rotation_step_def split: bind_splits)
    obtain r where r: "Run s1 1 = Some r" "fst r \<le> snd (snd b1)"
      using rotation_loop_first[OF b1] by auto
    have "improves b1 b"
      using for_loop_improves[OF rest] scale_rotation_step_improves by blast
    then have "fst r \<le> n" using r(2) n by (simp add: improves_def)
    then show ?thesis using plain[OF s1 r(1)] by simp
  next
    case rot
    then obtain s1 b where s1: "SetScale s 0 = Some s1"
      and b: "for_loop [1..8] rotation_step (s1, vbInliers, 0) = Some b"
      and n: "n = snd (snd b)"
      using assms by (auto simp: GetInlierMask_def split: bind_splits)
    obtain r where r: "Run s1 1 = Some r" "fst r \<le> snd (snd b)"
      using rotation_loop_first[OF b] by auto
    then show ?thesis using plain[OF s1 r(1)] n by simp
  next
    case scale
    then obtain b where b: "for_loop [0..4] scale_step (s, vbInliers, 0) = Some b"
      and n: "n = snd (snd b)"
      using assms by (auto simp: GetInlierMask_def split: bind_splits)
    from b obtain s1 r where s1: "SetScale s 0 = Some s1" and r: "Run s1 1 = Some r"
      and rest: "for_loop [1..4] scale_step (keep_best r vbInliers 0) = Some b"
      unfolding upto_0_4 by (auto simp: scale_step_def split: bind_splits)
    have "improves (keep_best r vbInliers 0) b"
      using for_loop_improves[OF rest] scale_step_improves by blast
    then have "fst r \<le> n" using keep_best_ge[of r vbInliers 0] n by (simp add: improves_def)
    then show ?thesis using plain[OF s1 r] by simp
  qed
qed

theorem search_keeps_plain_count_witness:
  "\<exists>n vb s'. GetInlierMask (example_matcher 1) [] True True = Some (n, vb, s')
     \<and> (\<exists>n0 vb0 s0. GetInlierMask (example_matcher 1) [] False False = Some (n0, vb0, s0)
          \<and> n0 \<le> n)"
proof -
  have "2 \<le> width (mGridSizeLeft (example_matcher 1))"
    "2 \<le> height (mGridSizeLeft (example_matcher 1))"
    by (simp_all add: example_matcher_def)
  from GetInlierMask_total[OF example_wellformed this, of "[]" True True]
  obtain n vb s' where h: "GetInlierMask (example_matcher 1) [] True True = Some (n, vb, s')"
    by auto
  show ?thesis using h search_keeps_plain_count[OF h] by blast
qed

text \<open>
  C10: when \<^verbatim>\<open>GetInlierMask\<close> returns with the rotation search or the scale search
  enabled and every hypothesis it evaluates counts 0 inliers, it returns 0 and the
  caller's vector as it was on entry; with both searches disabled it returns the
  matcher's mask, whatever the count.
\<close>

theorem zero_search_keeps_mask:
  assumes "GetInlierMask s vbInliers WithScale WithRotation = Some (n, vb, s')"
  shows "(WithScale \<or> WithRotation \<longrightarrow>
           (\<forall>Scale \<in> set (searched_scales WithScale).
              \<forall>RotationType \<in> set (searched_rotations WithRotation).
                hypothesis_count s Scale RotationType = Some 0) \<longrightarrow>
           n = 0 \<and> vb = vbInliers)
       \<and> (\<not> WithScale \<and> \<not> WithRotation \<longrightarrow> vb = mvbInlierMask s')"
proof -
  have plain: "vb = mvbInlierMask s'" if "\<not> WithScale \<and> \<not> WithRotation"
    using assms that by (auto simp: GetInlierMask_def bind_eq_Some_conv)
  have search: "n = 0 \<and> vb = vbInliers"
    if on: "WithScale \<or> WithRotation"
    and z: "\<forall>Scale \<in> set (searched_scales WithScale).
              \<forall>RotationType \<in> set (searched_rotations WithRotation).
                hypothesis_count s Scale RotationType = Some 0"
  proof -
  consider (both) "WithRotation" "WithScale"
    | (rot) "WithRotation" "\<not> WithScale" | (scale) "\<not> WithRotation" "WithScale"
    using on by blast
  then show ?thesis
  proof cases
    case both
    then obtain res where loop: "for_loop [0..4] scale_rotation_step (s, vbInliers, 0) = Some res"
      and n: "n = snd (snd res)" "vb = fst (snd res)"
      using assms by (auto simp: GetInlierMask_def bind_eq_Some_conv)
    have "\<forall>k \<in> set [0..4]. \<forall>r \<in> set [1..8]. hypothesis_count s k r = Some 0"
      using z both by (simp add: searched_scales_def searched_rotations_def)
    from scale_rotation_loop_zero[OF this same_input_refl loop] show ?thesis using n by auto
  next
    case rot
    then obtain s1 res where s1: "SetScale s 0 = Some s1"
      and loop: "for_loop [1..8] rotation_step (s1, vbInliers, 0) = Some res"
      and n: "n = snd (snd res)" "vb = fst (snd res)"
      using assms by (auto simp: GetInlierMask_def bind_eq_Some_conv)
    have "\<forall>r \<in> set [1..8]. hypothesis_count s 0 r = Some 0"
      using z rot by (simp add: searched_scales_def searched_rotations_def)
    from rotation_loop_zero[OF this same_input_refl s1 same_config_refl loop]
    show ?thesis using n by auto
  next
    case scale
    then obtain res where loop: "for_loop [0..4] scale_step (s, vbInliers, 0) = Some res"
      and n: "n = snd (snd res)" "vb = fst (snd res)"
      using assms by (auto simp: GetInlierMask_def bind_eq_Some_conv)
    have "\<forall>k \<in> set [0..4]. hypothesis_count s k 1 = Some 0"
      using z scale by (simp add: searched_scales_def searched_rotations_def)
    from scale_loop_zero[OF this same_input_refl loop] show ?thesis using n by auto
  qed
  qed
  show ?thesis using plain search by blast
qed

theorem zero_search_keeps_mask_witness:
  "hypothesis_count (example_matcher 6) 0 1 = Some 0
   \<and> hypothesis_count (example_matcher 6) 4 8 = Some 0
   \<and> (\<exists>s'. GetInlierMask (example_matcher 6) [True] True True = Some (0, [True], s'))
   \<and> (\<exists>n vb s'. GetInlierMask (example_matcher 6) [True] False False = Some (n, vb, s')
         \<and> vb = mvbInlierMask s')"
proof -
  have z: "\<forall>Scale \<in> set (searched_scales True). \<forall>RotationType \<in> set (searched_rotations True).
      hypothesis_count (example_matcher 6) Scale RotationType = Some 0"
    using example_zero_hypotheses by (simp add: searched_scales_def searched_rotations_def)
  have d: "2 \<le> width (mGridSizeLeft (example_matcher 6))"
    "2 \<le> height (mGridSizeLeft (example_matcher 6))"
    by (simp_all add: example_matcher_def)
  from GetInlierMask_total[OF example_wellformed d, of "[True]" True True]
  obtain n vb s' where h: "GetInlierMask (example_matcher 6) [True] True True = Some (n, vb, s')"
    by auto
  have kept: "n = 0 \<and> vb = [True]" using zero_search_keeps_mask[OF h] z by simp
  from GetInlierMask_total[OF example_wellformed d, of "[True]" False False]
  obtain n0 vb0 s0 where
    h0: "GetInlierMask (example_matcher 6) [True] False False = Some (n0, vb0, s0)"
    by auto
  have plain: "vb0 = mvbInlierMask s0" using zero_search_keeps_mask[OF h0] by simp
  have "hypothesis_count (example_matcher 6) 0 1 = Some 0"
    and "hypothesis_count (example_matcher 6) 4 8 = Some 0"
    by (simp_all add: example_zero_hypotheses)
  then show ?thesis using h kept h0 plain by blast
qed

section \<open>The dispatcher on empty and short candidate lists\<close>

lemma push_labelled_putative:
  "push_labelled ms ls sc i s = Some s' \<Longrightarrow> putative_matches s' = putative_matches s"
  by (auto simp: push_labelled_def split: bind_splits if_splits)

lemma push_loop_putative:
  assumes "for_loop xs (push_labelled ms ls sc) s = Some s'"
  shows "putative_matches s' = putative_matches s"
  using assms
  by (rule for_loop_invariant) (auto dest: push_labelled_putative)

lemma RatioTest_putative:
  "RatioTest ratio i s = Some s' \<Longrightarrow> putative_matches s' = putative_matches s"
  by (auto simp: RatioTest_def Let_def split: bind_splits if_splits)

lemma strategy_putative:
  assumes "(case pruner_method s of
            PRUNER_RATIO \<Rightarrow> PruneMatchesByRatioTest s (8 / 10)
          | PRUNER_GMS \<Rightarrow> PruneMatchesByGMS s \<lparr>width = 15, height = 15\<rparr> 6
          | PRUNER_LPM \<Rightarrow> PruneMatchesByLPM lpm s 8 (8 / 10) (2 / 10) 8 (5 / 10) (2 / 10)) = Some s'"
  shows "putative_matches s' = putative_matches s"
proof (cases "pruner_method s")
  case PRUNER_RATIO
  then have "for_loop [0..<length (putative_matches s)] (RatioTest (8 / 10)) s = Some s'"
    using assms by (simp add: PruneMatchesByRatioTest_def)
  then show ?thesis
    by (rule for_loop_invariant) (auto dest: RatioTest_putative)
next
  case PRUNER_GMS
  then obtain ms ls where "for_loop [0..<length ls] (push_labelled ms ls (\<lambda>i. Some 1)) s = Some s'"
    using assms by (auto simp: PruneMatchesByGMS_def split: bind_splits)
  then show ?thesis by (rule push_loop_putative)
next
  case PRUNER_LPM
  then obtain ms ls c where "for_loop [0..<length ls] (push_labelled ms ls (\<lambda>i. elem_at c (int i))) s = Some s'"
    using assms by (auto simp: PruneMatchesByLPM_def Let_def split: bind_splits prod.splits)
  then show ?thesis by (rule push_loop_putative)
qed

lemma PruneMatches_empty:
  assumes "putative_matches s = []"
  shows "PruneMatches lpm s = None"
proof (cases "case pruner_method s of
            PRUNER_RATIO \<Rightarrow> PruneMatchesByRatioTest s (8 / 10)
          | PRUNER_GMS \<Rightarrow> PruneMatchesByGMS s \<lparr>width = 15, height = 15\<rparr> 6
          | PRUNER_LPM \<Rightarrow> PruneMatchesByLPM lpm s 8 (8 / 10) (2 / 10) 8 (5 / 10) (2 / 10)")
  case None
  then show ?thesis by (simp add: PruneMatches_def)
next
  case (Some s')
  then have "putative_matches s' = []" using strategy_putative[OF Some] assms by simp
  then have "elem_at (putative_matches s') 0 = None" by (simp add: elem_at_def)
  then show ?thesis using Some by (simp add: PruneMatches_def)
qed

text \<open>
  C2: with no putative match no strategy changes the (empty) putative matches, and
  \<^verbatim>\<open>PruneMatches\<close> then reads \<^verbatim>\<open>putative_matches_[0]\<close>, an access outside the
  vector: the dispatcher faults for each of the three methods. With the ratio test the
  strategy returns the pruner unchanged, and the fault is this read of element 0.
\<close>

theorem empty_putative_reads_element_0:
  "MatchPruner_ctor lpm img0 img1 keypts0 keypts1 [] method = None
   \<and> PruneMatchesByRatioTest (s\<lparr>putative_matches := []\<rparr>) ratio = Some (s\<lparr>putative_matches := []\<rparr>)
   \<and> elem_at (putative_matches (s\<lparr>putative_matches := []\<rparr>)) 0 = None"
  by (simp add: MatchPruner_ctor_def PruneMatches_empty PruneMatchesByRatioTest_def elem_at_def)

text \<open>A candidate list shorter than 2 makes the ratio test fault, wherever it stands.\<close>

lemma RatioTest_short:
  assumes "i < length (putative_matches s)" "length (putative_matches s ! i) < 2"
  shows "RatioTest ratio i s = None"
proof -
  have c: "elem_at (putative_matches s) (int i) = Some (putative_matches s ! i)"
    using assms(1) by (simp add: elem_at_def)
  have "elem_at (putative_matches s ! i) 0 = None \<or> elem_at (putative_matches s ! i) 1 = None"
    using assms(2) by (simp add: elem_at_def)
  then show ?thesis
    unfolding RatioTest_def c by (cases "elem_at (putative_matches s ! i) 0") auto
qed

lemma PruneMatchesByRatioTest_short:
  assumes "i < length (putative_matches s)" "length (putative_matches s ! i) < 2"
  shows "PruneMatchesByRatioTest s ratio = None"
proof -
  let ?n = "length (putative_matches s)"
  have split: "[0..<?n] = [0..<i] @ i # [Suc i..<?n]"
  proof -
    have "[0..<?n] = [0..<i] @ [i..<?n]"
      using assms(1) upt_add_eq_append[of 0 i "?n - i"] by simp
    then show ?thesis using assms(1) by (simp add: upt_conv_Cons)
  qed
  show ?thesis
  proof (cases "for_loop [0..<i] (RatioTest ratio) s")
    case None
    then show ?thesis unfolding PruneMatchesByRatioTest_def split for_loop_append by simp
  next
    case (Some a)
    then have "putative_matches a = putative_matches s"
      by (rule for_loop_invariant) (auto dest: RatioTest_putative)
    then have "RatioTest ratio i a = None" using assms by (simp add: RatioTest_short)
    then show ?thesis using Some unfolding PruneMatchesByRatioTest_def split for_loop_append by simp
  qed
qed

text \<open>
  C3: with a single candidate for a query (k = 1) the ratio test reads
  \<^verbatim>\<open>tmp_matches[1]\<close>, an access outside the vector; there is no check of k.
\<close>

theorem ratio_test_reads_element_1:
  "PruneMatchesByRatioTest (s\<lparr>putative_matches := [[m]]\<rparr>) ratio = None
   \<and> MatchPruner_ctor lpm img0 img1 keypts0 keypts1 [[m]] PRUNER_RATIO = None"
  by (simp add: MatchPruner_ctor_def PruneMatches_def PruneMatchesByRatioTest_def RatioTest_def elem_at_def)

end
